theory Spec2Isabelle
  imports Complex_Main "HOL-Library.Word"
begin

unbundle bit_operations_syntax

section \<open>Regression tree grower of xgboost\_svdf\_tree.hpp\<close>

text \<open>
  The embedding follows \<^verbatim>\<open>src/booster/tree/xgboost_svdf_tree.hpp\<close>.
  Conventions:
  \<^item> \<^verbatim>\<open>float\<close> and \<^verbatim>\<open>double\<close> are idealised as \<^typ>\<open>real\<close>: comparisons and the
    arithmetic expressions are kept as written, rounding and NaN are not modelled;
  \<^item> \<^verbatim>\<open>unsigned\<close> is \<^typ>\<open>32 word\<close>; \<^verbatim>\<open>size_t\<close> positions in vectors are \<^typ>\<open>nat\<close>;
    \<^verbatim>\<open>int\<close> is \<^typ>\<open>int\<close>;
  \<^item> a \<^verbatim>\<open>std::vector\<close> is a list; a read or write outside of it (undefined in C++)
    and a failed \<^verbatim>\<open>utils::Assert\<close> are values of the type \<open>error\<close>;
  \<^item> a pointer into a vector is the position it points at.
\<close>

subsection \<open>Constants, errors, vector access\<close>

definition rt_eps :: real where
  "rt_eps = 1 / 100000"

definition rt_2eps :: real where
  "rt_2eps = rt_eps * 2"

datatype error = AssertFail | OutOfBounds

text \<open>\<^verbatim>\<open>v[i]\<close> as a read and \<^verbatim>\<open>v[i] = x\<close> as a write, failing outside of the vector.\<close>

definition get :: "'a list \<Rightarrow> nat \<Rightarrow> error + 'a" where
  "get xs i = (if i < length xs then Inr (xs ! i) else Inl OutOfBounds)"

definition put :: "'a list \<Rightarrow> nat \<Rightarrow> 'a \<Rightarrow> error + 'a list" where
  "put xs i x = (if i < length xs then Inr (xs[i := x]) else Inl OutOfBounds)"

subsection \<open>RTSelecter\<close>

record Entry =
  loss_chg :: real
  start :: nat
  len :: int
  sindex :: "32 word"
  split_value :: real

text \<open>The six-argument constructor \<^verbatim>\<open>Entry(loss_chg, start, len, split_index, split_value, default_left)\<close>.\<close>

definition mk_Entry :: "real \<Rightarrow> nat \<Rightarrow> int \<Rightarrow> 32 word \<Rightarrow> real \<Rightarrow> bool \<Rightarrow> Entry" where
  "mk_Entry lc st n split_index sv default_left =
     \<lparr>loss_chg = lc, start = st, len = n,
      sindex = (if default_left then split_index OR push_bit 31 1 else split_index),
      split_value = sv\<rparr>"

definition split_index :: "Entry \<Rightarrow> 32 word" where
  "split_index e = sindex e AND (push_bit 31 1 - 1)"

definition default_left :: "Entry \<Rightarrow> bool" where
  "default_left e = (drop_bit 31 (sindex e) \<noteq> 0)"

record RTSelecter =
  best_entry :: Entry

text \<open>The constructor: \<^verbatim>\<open>memset\<close> to zero, then \<^verbatim>\<open>best_entry.loss_chg = 0.0f\<close>.\<close>

definition zero_Entry :: Entry where
  "zero_Entry = \<lparr>loss_chg = 0, start = 0, len = 0, sindex = 0, split_value = 0\<rparr>"

definition RTSelecter_new :: RTSelecter where
  "RTSelecter_new = \<lparr>best_entry = zero_Entry\<lparr>loss_chg := 0\<rparr>\<rparr>"

definition push_back :: "RTSelecter \<Rightarrow> Entry \<Rightarrow> RTSelecter" where
  "push_back s e = (if loss_chg e > loss_chg (best_entry s) then s\<lparr>best_entry := e\<rparr> else s)"

definition select :: "RTSelecter \<Rightarrow> Entry" where
  "select s = best_entry s"

subsection \<open>Training parameters\<close>

text \<open>
  Modelled from the spec: \<^verbatim>\<open>TreeParamTrain\<close> is declared in \<^verbatim>\<open>xgboost_tree_model.h\<close>,
  which is not part of the source. Its scalar fields are read as they are named in the
  code; its methods \<^verbatim>\<open>CalcWeight\<close>, \<^verbatim>\<open>CalcCost\<close>, \<^verbatim>\<open>CalcRootCost\<close>, \<^verbatim>\<open>need_prune\<close> and
  \<^verbatim>\<open>cannot_split\<close> are pure functions over sums (spec, section 6) and are taken as
  parameters: fields that hold a function.
\<close>

record TreeParamTrain =
  learning_rate :: real
  min_child_weight :: real
  max_depth :: int
  default_direction :: int
  subsample :: real
  CalcWeight :: "real \<Rightarrow> real \<Rightarrow> real \<Rightarrow> real"
  CalcCost :: "real \<Rightarrow> real \<Rightarrow> real \<Rightarrow> real"
  CalcRootCost :: "real \<Rightarrow> real \<Rightarrow> real"
  need_prune :: "real \<Rightarrow> int \<Rightarrow> bool"
  cannot_split :: "real \<Rightarrow> int \<Rightarrow> bool"

subsection \<open>Split enumeration\<close>

record SCEntry =
  fvalue :: real
  rindex :: "32 word"

text \<open>\<^verbatim>\<open>static_cast<int>\<close> of a \<^verbatim>\<open>size_t\<close>: the low 32 bits, read as two's complement.\<close>

definition int_of_size :: "nat \<Rightarrow> int" where
  "int_of_size n = sint (word_of_nat n :: 32 word)"

text \<open>
  The forward loop of \<^verbatim>\<open>enumerate_split\<close> (default right). Its only effect is the
  sequence of calls \<^verbatim>\<open>slocal.push_back(...)\<close>; the function returns the candidates
  pushed, in the order of the calls. The arguments \<open>j\<close>, \<open>csum_grad\<close> and \<open>csum_hess\<close>
  are the loop variables, \<open>st\<close> and \<open>en\<close> are \<^verbatim>\<open>start\<close> and \<^verbatim>\<open>end\<close>; \<^verbatim>\<open>continue\<close> is the recursive call at \<open>j + 1\<close>, \<^verbatim>\<open>break\<close>
  ends the list. \<^verbatim>\<open>entry[j + 1]\<close> is read only where the code reads it.
\<close>

function forward_sweep ::
  "TreeParamTrain \<Rightarrow> real list \<Rightarrow> real list \<Rightarrow> real \<Rightarrow> real \<Rightarrow> real \<Rightarrow> SCEntry list \<Rightarrow>
   nat \<Rightarrow> nat \<Rightarrow> 32 word \<Rightarrow> real \<Rightarrow> nat \<Rightarrow> real \<Rightarrow> real \<Rightarrow> error + Entry list" where
  "forward_sweep p grad hess rsum_grad rsum_hess root_cost entry st en findex
       parent_base_weight j csum_grad csum_hess =
     (if j < en then
        (case get entry j of Inl err \<Rightarrow> Inl err | Inr ej \<Rightarrow>
         case get grad (unat (rindex ej)) of Inl err \<Rightarrow> Inl err | Inr g \<Rightarrow>
         case get hess (unat (rindex ej)) of Inl err \<Rightarrow> Inl err | Inr h \<Rightarrow>
         let csum_grad = csum_grad + g; csum_hess = csum_hess + h in
         case (if j = en - 1 then Inr True
               else case get entry (j + 1) of Inl err \<Rightarrow> Inl err
                    | Inr ej1 \<Rightarrow> Inr (fvalue ej + rt_2eps < fvalue ej1)) of
           Inl err \<Rightarrow> Inl err
         | Inr False \<Rightarrow>
             forward_sweep p grad hess rsum_grad rsum_hess root_cost entry st en findex
               parent_base_weight (j + 1) csum_grad csum_hess
         | Inr True \<Rightarrow>
             if csum_hess < min_child_weight p then
               forward_sweep p grad hess rsum_grad rsum_hess root_cost entry st en findex
                 parent_base_weight (j + 1) csum_grad csum_hess
             else
               let dsum_hess = rsum_hess - csum_hess in
               if dsum_hess < min_child_weight p then Inr []
               else
                 let lc = CalcCost p csum_grad csum_hess parent_base_weight
                       + CalcCost p (rsum_grad - csum_grad) dsum_hess parent_base_weight
                       - root_cost;
                     clen = int_of_size (j + 1 - st) in
                 case (if j = en - 1 then Inr (fvalue ej + rt_eps)
                       else case get entry (j + 1) of Inl err \<Rightarrow> Inl err
                            | Inr ej1 \<Rightarrow> Inr (0.5 * (fvalue ej + fvalue ej1))) of
                   Inl err \<Rightarrow> Inl err
                 | Inr thr \<Rightarrow>
                     (case forward_sweep p grad hess rsum_grad rsum_hess root_cost entry st
                             en findex parent_base_weight (j + 1) csum_grad csum_hess of
                        Inl err \<Rightarrow> Inl err
                      | Inr cs \<Rightarrow> Inr (mk_Entry lc st clen findex thr False # cs)))
      else Inr [])"
  by pat_completeness auto
termination
  by (relation "measure (\<lambda>(p, grad, hess, rg, rh, rc, entry, st, en, findex, pbw, j, cg, ch).
        en - j)") auto

declare forward_sweep.simps [simp del]

text \<open>The backward loop (default left): \<open>j\<close> runs from \<open>en\<close> down to \<open>st + 1\<close>.\<close>

function backward_sweep ::
  "TreeParamTrain \<Rightarrow> real list \<Rightarrow> real list \<Rightarrow> real \<Rightarrow> real \<Rightarrow> real \<Rightarrow> SCEntry list \<Rightarrow>
   nat \<Rightarrow> nat \<Rightarrow> 32 word \<Rightarrow> real \<Rightarrow> nat \<Rightarrow> real \<Rightarrow> real \<Rightarrow> error + Entry list" where
  "backward_sweep p grad hess rsum_grad rsum_hess root_cost entry st en findex
       parent_base_weight j csum_grad csum_hess =
     (if j > st then
        (case get entry (j - 1) of Inl err \<Rightarrow> Inl err | Inr ej \<Rightarrow>
         case get grad (unat (rindex ej)) of Inl err \<Rightarrow> Inl err | Inr g \<Rightarrow>
         case get hess (unat (rindex ej)) of Inl err \<Rightarrow> Inl err | Inr h \<Rightarrow>
         let csum_grad = csum_grad + g; csum_hess = csum_hess + h in
         case (if j = st + 1 then Inr True
               else case get entry (j - 2) of Inl err \<Rightarrow> Inl err
                    | Inr ej2 \<Rightarrow> Inr (fvalue ej2 + rt_2eps < fvalue ej)) of
           Inl err \<Rightarrow> Inl err
         | Inr False \<Rightarrow>
             backward_sweep p grad hess rsum_grad rsum_hess root_cost entry st en findex
               parent_base_weight (j - 1) csum_grad csum_hess
         | Inr True \<Rightarrow>
             if csum_hess < min_child_weight p then
               backward_sweep p grad hess rsum_grad rsum_hess root_cost entry st en findex
                 parent_base_weight (j - 1) csum_grad csum_hess
             else
               let dsum_hess = rsum_hess - csum_hess in
               if dsum_hess < min_child_weight p then Inr []
               else
                 let lc = CalcCost p csum_grad csum_hess parent_base_weight
                       + CalcCost p (rsum_grad - csum_grad) dsum_hess parent_base_weight
                       - root_cost;
                     clen = int_of_size (en - j + 1) in
                 case (if j = st + 1 then Inr (fvalue ej - rt_eps)
                       else case get entry (j - 2) of Inl err \<Rightarrow> Inl err
                            | Inr ej2 \<Rightarrow> Inr (0.5 * (fvalue ej2 + fvalue ej))) of
                   Inl err \<Rightarrow> Inl err
                 | Inr thr \<Rightarrow>
                     (case backward_sweep p grad hess rsum_grad rsum_hess root_cost entry st
                             en findex parent_base_weight (j - 1) csum_grad csum_hess of
                        Inl err \<Rightarrow> Inl err
                      | Inr cs \<Rightarrow> Inr (mk_Entry lc (j - 1) clen findex thr True # cs)))
      else Inr [])"
  by pat_completeness auto
termination
  by (relation "measure (\<lambda>(p, grad, hess, rg, rh, rc, entry, st, en, findex, pbw, j, cg, ch).
        j - st)") auto

declare backward_sweep.simps [simp del]

text \<open>
  The local selecter of \<^verbatim>\<open>enumerate_split\<close>: a new selecter that receives the candidates of
  the forward loop (unless \<^verbatim>\<open>default_direction\<close> is 1), then those of the backward loop
  (unless it is 2).
\<close>

definition enumerate_local ::
  "TreeParamTrain \<Rightarrow> real list \<Rightarrow> real list \<Rightarrow> real \<Rightarrow> real \<Rightarrow> real \<Rightarrow> SCEntry list \<Rightarrow>
   nat \<Rightarrow> nat \<Rightarrow> 32 word \<Rightarrow> real \<Rightarrow> error + RTSelecter" where
  "enumerate_local p grad hess rsum_grad rsum_hess root_cost entry st en findex
       parent_base_weight =
     (case (if default_direction p \<noteq> 1
            then forward_sweep p grad hess rsum_grad rsum_hess root_cost entry st en findex
                   parent_base_weight st 0 0
            else Inr []) of
        Inl err \<Rightarrow> Inl err
      | Inr fs \<Rightarrow>
          (case (if default_direction p \<noteq> 2
                 then backward_sweep p grad hess rsum_grad rsum_hess root_cost entry st en
                        findex parent_base_weight en 0 0
                 else Inr []) of
             Inl err \<Rightarrow> Inl err
           | Inr bs \<Rightarrow> Inr (foldl push_back (foldl push_back RTSelecter_new fs) bs)))"

text \<open>\<^verbatim>\<open>enumerate_split\<close>: the local winner is pushed into the global selecter, always.\<close>

definition enumerate_split ::
  "TreeParamTrain \<Rightarrow> real list \<Rightarrow> real list \<Rightarrow> RTSelecter \<Rightarrow> real \<Rightarrow> real \<Rightarrow> real \<Rightarrow>
   SCEntry list \<Rightarrow> nat \<Rightarrow> nat \<Rightarrow> 32 word \<Rightarrow> real \<Rightarrow> error + RTSelecter" where
  "enumerate_split p grad hess sglobal rsum_grad rsum_hess root_cost entry st en findex
       parent_base_weight =
     (case enumerate_local p grad hess rsum_grad rsum_hess root_cost entry st en findex
             parent_base_weight of
        Inl err \<Rightarrow> Inl err
      | Inr slocal \<Rightarrow> Inr (push_back sglobal (select slocal)))"

subsection \<open>The forward sweep in the words of the specification\<close>







subsection \<open>Tree storage\<close>

text \<open>
  Modelled from the spec: \<^verbatim>\<open>TreeModel\<close> (the base class of \<^verbatim>\<open>RTree\<close>) is declared in
  \<^verbatim>\<open>xgboost_tree_model.h\<close>, which is not part of the source. The specification (sections
  3 and 6) gives a node array; a node is a split or a leaf and carries its parent, its two
  children, the split feature, the threshold, the default direction, the leaf weight and
  its stat; \<^verbatim>\<open>AddChilds\<close> assigns two consecutive new child ids; \<^verbatim>\<open>ChangeToLeaf\<close> replaces
  a split by a leaf; \<^verbatim>\<open>GetDepth\<close> is the depth of a node. The id \<open>-1\<close> stands for "no
  node": a root has parent \<open>-1\<close>, a leaf has left child \<open>-1\<close>.
\<close>

record RTreeNodeStat =
  stat_loss_chg :: real
  base_weight :: real
  leaf_child_cnt :: int

record Node =
  parent :: int
  cleft :: int
  cright :: int
  node_split_index :: "32 word"
  node_default_left :: bool
  split_cond :: real
  leaf_value :: real
  node_stat :: RTreeNodeStat

record RTree =
  nodes :: "Node list"
  num_feature :: int
  num_roots :: int
  tree_max_depth :: int

definition is_leaf :: "Node \<Rightarrow> bool" where
  "is_leaf n = (cleft n = -1)"

definition is_root :: "Node \<Rightarrow> bool" where
  "is_root n = (parent n = -1)"

text \<open>\<^verbatim>\<open>tree[nid]\<close> and \<^verbatim>\<open>tree.stat(nid)\<close>: the node at an id, failing outside of the array.\<close>

definition node_at :: "RTree \<Rightarrow> int \<Rightarrow> error + Node" where
  "node_at t nid =
     (if 0 \<le> nid \<and> nat nid < length (nodes t) then Inr (nodes t ! nat nid)
      else Inl OutOfBounds)"

definition set_node :: "RTree \<Rightarrow> int \<Rightarrow> Node \<Rightarrow> error + RTree" where
  "set_node t nid n =
     (if 0 \<le> nid \<and> nat nid < length (nodes t) then Inr (t\<lparr>nodes := (nodes t)[nat nid := n]\<rparr>)
      else Inl OutOfBounds)"

definition set_leaf :: "Node \<Rightarrow> real \<Rightarrow> Node" where
  "set_leaf n v = n\<lparr>leaf_value := v, cleft := -1, cright := -1\<rparr>"

definition set_split :: "Node \<Rightarrow> 32 word \<Rightarrow> real \<Rightarrow> bool \<Rightarrow> Node" where
  "set_split n f thr dl = n\<lparr>node_split_index := f, split_cond := thr, node_default_left := dl\<rparr>"

definition new_node :: "int \<Rightarrow> Node" where
  "new_node pid = \<lparr>parent = pid, cleft = -1, cright = -1, node_split_index = 0,
     node_default_left = False, split_cond = 0, leaf_value = 0,
     node_stat = \<lparr>stat_loss_chg = 0, base_weight = 0, leaf_child_cnt = 0\<rparr>\<rparr>"

definition AddChilds :: "RTree \<Rightarrow> int \<Rightarrow> error + RTree" where
  "AddChilds t nid =
     (case node_at t nid of Inl err \<Rightarrow> Inl err
      | Inr n \<Rightarrow>
          let pleft = int (length (nodes t)); pright = pleft + 1 in
          Inr (t\<lparr>nodes := (nodes t)[nat nid := n\<lparr>cleft := pleft, cright := pright\<rparr>]
                              @ [new_node nid, new_node nid]\<rparr>))"

definition ChangeToLeaf :: "RTree \<Rightarrow> int \<Rightarrow> real \<Rightarrow> error + RTree" where
  "ChangeToLeaf t rid v =
     (case node_at t rid of Inl err \<Rightarrow> Inl err
      | Inr n \<Rightarrow> set_node t rid (set_leaf n v))"

text \<open>
  \<^verbatim>\<open>GetDepth\<close>: the number of steps to a root along the parent links. On an array whose
  parent links cycle, the walk does not end: the value is \<open>None\<close>.
\<close>

partial_function (option) GetDepth_from :: "RTree \<Rightarrow> int \<Rightarrow> int \<Rightarrow> (error + int) option" where
  "GetDepth_from t nid depth =
     (case node_at t nid of Inl err \<Rightarrow> Some (Inl err)
      | Inr n \<Rightarrow> if is_root n then Some (Inr depth)
                 else GetDepth_from t (parent n) (depth + 1))"

definition GetDepth :: "RTree \<Rightarrow> int \<Rightarrow> (error + int) option" where
  "GetDepth t nid = GetDepth_from t nid 0"

subsection \<open>RTreeUpdater\<close>

text \<open>
  A task; the fields carry the prefix \<open>t_\<close>. The pointer \<open>t_idset\<close> is the position in
  the updater's vector \<^verbatim>\<open>idset\<close> at which the slice of the task begins; \<open>t_len\<close> is its
  length (\<^verbatim>\<open>unsigned len\<close>).
\<close>

record Task =
  t_nid :: int
  t_idset :: nat
  t_len :: "32 word"
  t_parent_base_weight :: real

text \<open>
  The updater; the fields carry the prefix \<open>u_\<close>. \<open>u_smat\<close> is the sparse matrix, one list
  of (feature index, value) pairs per row. \<open>u_task_stack\<close> grows at its end, as the vector
  does. The scratch vector \<^verbatim>\<open>tmp_rptr\<close> holds zeros between two calls of \<^verbatim>\<open>expand\<close> and
  is not part of the state.
\<close>

record RTreeUpdater =
  u_param :: TreeParamTrain
  u_tree :: RTree
  u_grad :: "real list"
  u_hess :: "real list"
  u_smat :: "(32 word \<times> real) list list"
  u_group_id :: "32 word list"
  u_max_depth :: int
  u_num_pruned :: int
  u_task_stack :: "Task list"
  u_idset :: "32 word list"

definition add_task :: "RTreeUpdater \<Rightarrow> Task \<Rightarrow> RTreeUpdater" where
  "add_task u tsk = u\<lparr>u_task_stack := u_task_stack u @ [tsk]\<rparr>"

definition next_task :: "RTreeUpdater \<Rightarrow> (Task \<times> RTreeUpdater) option" where
  "next_task u =
     (if length (u_task_stack u) = 0 then None
      else Some (last (u_task_stack u), u\<lparr>u_task_stack := butlast (u_task_stack u)\<rparr>))"

text \<open>
  \<^verbatim>\<open>try_prune_leaf\<close>. The recursion follows the parent links; on a cycle of parent links
  it need not end, and the value is then \<open>None\<close>.
\<close>

partial_function (option) try_prune_leaf ::
  "RTreeUpdater \<Rightarrow> int \<Rightarrow> int \<Rightarrow> (error + RTreeUpdater) option" where
  "try_prune_leaf u nid depth =
     (case node_at (u_tree u) nid of Inl err \<Rightarrow> Some (Inl err)
      | Inr n \<Rightarrow>
          if is_root n then Some (Inr u)
          else
            let pid = parent n in
            case node_at (u_tree u) pid of Inl err \<Rightarrow> Some (Inl err)
            | Inr pn \<Rightarrow>
                let s = (node_stat pn)\<lparr>leaf_child_cnt := leaf_child_cnt (node_stat pn) + 1\<rparr>;
                    t1 = (u_tree u)\<lparr>nodes := (nodes (u_tree u))[nat pid := pn\<lparr>node_stat := s\<rparr>]\<rparr>
                in
                if leaf_child_cnt s \<ge> 2 \<and> need_prune (u_param u) (stat_loss_chg s) (depth - 1)
                then
                  case ChangeToLeaf t1 pid (learning_rate (u_param u) * base_weight s) of
                    Inl err \<Rightarrow> Some (Inl err)
                  | Inr t2 \<Rightarrow>
                      try_prune_leaf (u\<lparr>u_tree := t2, u_num_pruned := u_num_pruned u + 2\<rparr>) pid
                        (depth - 1)
                else Some (Inr (u\<lparr>u_tree := t1\<rparr>)))"

text \<open>
  The loop of \<^verbatim>\<open>make_leaf\<close>: \<^verbatim>\<open>tsk.idset[i]\<close> is read in every round, the sums grow only
  when \<open>compute\<close> holds.
\<close>

function make_leaf_sums ::
  "32 word list \<Rightarrow> real list \<Rightarrow> real list \<Rightarrow> Task \<Rightarrow> bool \<Rightarrow> nat \<Rightarrow> real \<Rightarrow> real \<Rightarrow>
   error + real \<times> real" where
  "make_leaf_sums ids grad hess tsk compute i sum_grad sum_hess =
     (if i < unat (t_len tsk) then
        (case get ids (t_idset tsk + i) of Inl err \<Rightarrow> Inl err
         | Inr ridx \<Rightarrow>
             if compute then
               (case get grad (unat ridx) of Inl err \<Rightarrow> Inl err | Inr g \<Rightarrow>
                case get hess (unat ridx) of Inl err \<Rightarrow> Inl err | Inr h \<Rightarrow>
                  make_leaf_sums ids grad hess tsk compute (i + 1) (sum_grad + g) (sum_hess + h))
             else make_leaf_sums ids grad hess tsk compute (i + 1) sum_grad sum_hess)
      else Inr (sum_grad, sum_hess))"
  by pat_completeness auto
termination
  by (relation "measure (\<lambda>(ids, grad, hess, tsk, compute, i, sg, sh). unat (t_len tsk) - i)") auto

declare make_leaf_sums.simps [simp del]

definition make_leaf ::
  "RTreeUpdater \<Rightarrow> Task \<Rightarrow> real \<Rightarrow> real \<Rightarrow> bool \<Rightarrow> (error + RTreeUpdater) option" where
  "make_leaf u tsk sum_grad sum_hess compute =
     (case make_leaf_sums (u_idset u) (u_grad u) (u_hess u) tsk compute 0 sum_grad sum_hess of
        Inl err \<Rightarrow> Some (Inl err)
      | Inr (sg, sh) \<Rightarrow>
          (case node_at (u_tree u) (t_nid tsk) of Inl err \<Rightarrow> Some (Inl err)
           | Inr n \<Rightarrow>
               let v = learning_rate (u_param u)
                         * CalcWeight (u_param u) sg sh (t_parent_base_weight tsk);
                   t1 = (u_tree u)\<lparr>nodes := (nodes (u_tree u))[nat (t_nid tsk) := set_leaf n v]\<rparr>
               in
               Option.bind (GetDepth t1 (t_nid tsk))
                 (\<lambda>r. case r of Inl err \<Rightarrow> Some (Inl err)
                      | Inr depth \<Rightarrow> try_prune_leaf (u\<lparr>u_tree := t1\<rparr>) (t_nid tsk) depth)))"

text \<open>
  \<^verbatim>\<open>make_split\<close>, in its steps. The row indices of \<open>entry[off .. off + num)\<close> are collected
  (\<open>off\<close> is the position the pointer \<^verbatim>\<open>entry\<close> of the code points at) and sorted.
\<close>

function collect_qset :: "SCEntry list \<Rightarrow> nat \<Rightarrow> int \<Rightarrow> nat \<Rightarrow> 32 word list \<Rightarrow> error + 32 word list" where
  "collect_qset entry off num i qset =
     (if int i < num then
        (case get entry (off + i) of Inl err \<Rightarrow> Inl err
         | Inr e \<Rightarrow> collect_qset entry off num (i + 1) (qset @ [rindex e]))
      else Inr qset)"
  by pat_completeness auto
termination
  by (relation "measure (\<lambda>(entry, off, num, i, qset). nat num - i)") auto

declare collect_qset.simps [simp del]

text \<open>
  The merge-style loop that removes the elements of \<open>qset\<close> from the slice
  \<open>ids[base .. base + n)\<close> in place. \<open>tp\<close> (\<^verbatim>\<open>top\<close> in the code) never exceeds \<open>i\<close>, and it is at least the size of
  \<open>qset\<close> in the last branch, so that the two differences do not wrap around.
\<close>

function split_idset ::
  "32 word list \<Rightarrow> nat \<Rightarrow> nat \<Rightarrow> 32 word list \<Rightarrow> nat \<Rightarrow> nat \<Rightarrow> error + 32 word list" where
  "split_idset ids base n qset i tp =
     (if i < n then
        (if tp < length qset then
           (case get ids (base + i) of Inl err \<Rightarrow> Inl err
            | Inr x \<Rightarrow>
                if x \<noteq> qset ! tp then
                  (case put ids (base + (i - tp)) x of Inl err \<Rightarrow> Inl err
                   | Inr ids' \<Rightarrow> split_idset ids' base n qset (i + 1) tp)
                else split_idset ids base n qset (i + 1) (tp + 1))
         else
           (case get ids (base + i) of Inl err \<Rightarrow> Inl err
            | Inr x \<Rightarrow>
                (case put ids (base + (i - length qset)) x of Inl err \<Rightarrow> Inl err
                 | Inr ids' \<Rightarrow> split_idset ids' base n qset (i + 1) tp)))
      else Inr ids)"
  by pat_completeness auto
termination
  by (relation "measure (\<lambda>(ids, base, n, qset, i, tp). n - i)") auto

declare split_idset.simps [simp del]

text \<open>The loop that writes \<open>qset\<close> into the slice of the split part.\<close>

function fill_back :: "32 word list \<Rightarrow> nat \<Rightarrow> 32 word list \<Rightarrow> nat \<Rightarrow> nat \<Rightarrow> error + 32 word list" where
  "fill_back ids pos qset n i =
     (if i < n then
        (case get qset i of Inl err \<Rightarrow> Inl err
         | Inr x \<Rightarrow>
             (case put ids (pos + i) x of Inl err \<Rightarrow> Inl err
              | Inr ids' \<Rightarrow> fill_back ids' pos qset n (i + 1)))
      else Inr ids)"
  by pat_completeness auto
termination
  by (relation "measure (\<lambda>(ids, pos, qset, n, i). n - i)") auto

declare fill_back.simps [simp del]

text \<open>
  \<^verbatim>\<open>make_split\<close>. The reference \<^verbatim>\<open>s\<close> to the stat of the node is its value after the three
  assignments; \<^verbatim>\<open>n\<close> is the node after \<^verbatim>\<open>AddChilds\<close>. The length of the default part is
  \<^verbatim>\<open>tsk.len - qset.size()\<close> cut to \<^verbatim>\<open>unsigned\<close>.
\<close>

definition make_split ::
  "RTreeUpdater \<Rightarrow> Task \<Rightarrow> SCEntry list \<Rightarrow> nat \<Rightarrow> int \<Rightarrow> real \<Rightarrow> real \<Rightarrow> error + RTreeUpdater" where
  "make_split u tsk entry off num lc bw =
     (case node_at (u_tree u) (t_nid tsk) of Inl err \<Rightarrow> Inl err
      | Inr n0 \<Rightarrow>
          let s = (node_stat n0)\<lparr>stat_loss_chg := lc, leaf_child_cnt := 0, base_weight := bw\<rparr>;
              t1 = (u_tree u)\<lparr>nodes := (nodes (u_tree u))[nat (t_nid tsk) := n0\<lparr>node_stat := s\<rparr>]\<rparr>
          in
          case AddChilds t1 (t_nid tsk) of Inl err \<Rightarrow> Inl err
          | Inr t2 \<Rightarrow>
              (case collect_qset entry off num 0 [] of Inl err \<Rightarrow> Inl err
               | Inr q \<Rightarrow>
                   let qset = sort q in
                   case split_idset (u_idset u) (t_idset tsk) (unat (t_len tsk)) qset 0 0 of
                     Inl err \<Rightarrow> Inl err
                   | Inr ids1 \<Rightarrow>
                       (case node_at t2 (t_nid tsk) of Inl err \<Rightarrow> Inl err
                        | Inr n \<Rightarrow>
                            let def_part =
                                  \<lparr>t_nid = (if node_default_left n then cleft n else cright n),
                                   t_idset = t_idset tsk,
                                   t_len = t_len tsk - word_of_nat (length qset),
                                   t_parent_base_weight = base_weight s\<rparr>;
                                spl_part =
                                  \<lparr>t_nid = (if node_default_left n then cright n else cleft n),
                                   t_idset = t_idset tsk + unat (t_len def_part),
                                   t_len = word_of_nat (length qset),
                                   t_parent_base_weight = base_weight s\<rparr>
                            in
                            case fill_back ids1 (t_idset spl_part) qset (unat (t_len spl_part)) 0 of
                              Inl err \<Rightarrow> Inl err
                            | Inr ids2 \<Rightarrow>
                                Inr (add_task (add_task (u\<lparr>u_tree := t2, u_idset := ids2\<rparr>) def_part)
                                       spl_part))))"

subsection \<open>expand\<close>

text \<open>
  The first loop of \<^verbatim>\<open>expand\<close> over the rows of the task: the sums of the node, and one
  \<^verbatim>\<open>AddBudget\<close> for each feature of each row. The function returns the sums and the
  feature indices budgeted, in the order of the calls. A feature index that is not below
  \<open>nrows\<close> is a contract violation (spec, section 7).
\<close>

definition AddBudget_row :: "int \<Rightarrow> (32 word \<times> real) list \<Rightarrow> error + nat list" where
  "AddBudget_row nrows sp =
     (if \<forall>fv \<in> set sp. int (unat (fst fv)) < nrows then Inr (map (\<lambda>fv. unat (fst fv)) sp)
      else Inl AssertFail)"

function budget_pass ::
  "32 word list \<Rightarrow> real list \<Rightarrow> real list \<Rightarrow> (32 word \<times> real) list list \<Rightarrow> int \<Rightarrow> Task \<Rightarrow>
   nat \<Rightarrow> real \<Rightarrow> real \<Rightarrow> nat list \<Rightarrow> error + real \<times> real \<times> nat list" where
  "budget_pass ids grad hess sm nrows tsk i rsum_grad rsum_hess budget =
     (if i < unat (t_len tsk) then
        (case get ids (t_idset tsk + i) of Inl err \<Rightarrow> Inl err | Inr ridx \<Rightarrow>
         case get grad (unat ridx) of Inl err \<Rightarrow> Inl err | Inr g \<Rightarrow>
         case get hess (unat ridx) of Inl err \<Rightarrow> Inl err | Inr h \<Rightarrow>
         case get sm (unat ridx) of Inl err \<Rightarrow> Inl err | Inr sp \<Rightarrow>
         case AddBudget_row nrows sp of Inl err \<Rightarrow> Inl err
         | Inr fs \<Rightarrow>
             budget_pass ids grad hess sm nrows tsk (i + 1) (rsum_grad + g) (rsum_hess + h)
               (budget @ fs))
      else Inr (rsum_grad, rsum_hess, budget))"
  by pat_completeness auto
termination
  by (relation "measure (\<lambda>(ids, grad, hess, sm, nrows, tsk, i, rg, rh, budget).
        unat (t_len tsk) - i)") auto

declare budget_pass.simps [simp del]

text \<open>
  The second loop: one \<^verbatim>\<open>PushElem(findex, SCEntry(fvalue, ridx))\<close> for each feature of each
  row. The function returns the pairs pushed, in the order of the calls.
\<close>

function storage_pass ::
  "32 word list \<Rightarrow> (32 word \<times> real) list list \<Rightarrow> Task \<Rightarrow> nat \<Rightarrow> (nat \<times> SCEntry) list \<Rightarrow>
   error + (nat \<times> SCEntry) list" where
  "storage_pass ids sm tsk i pushed =
     (if i < unat (t_len tsk) then
        (case get ids (t_idset tsk + i) of Inl err \<Rightarrow> Inl err | Inr ridx \<Rightarrow>
         case get sm (unat ridx) of Inl err \<Rightarrow> Inl err
         | Inr sp \<Rightarrow>
             storage_pass ids sm tsk (i + 1)
               (pushed @ map (\<lambda>fv. (unat (fst fv), \<lparr>fvalue = snd fv, rindex = ridx\<rparr>)) sp))
      else Inr pushed)"
  by pat_completeness auto
termination
  by (relation "measure (\<lambda>(ids, sm, tsk, i, pushed). unat (t_len tsk) - i)") auto

declare storage_pass.simps [simp del]

text \<open>
  Modelled from the spec: \<^verbatim>\<open>utils::SparseCSRMBuilder\<close> is declared in
  \<^verbatim>\<open>xgboost_matrix_csr.h\<close>, which is not part of the source. By its contract (spec,
  section 4.1) the active list holds the features budgeted, each once, in the order of
  their first budget; the entries of a feature are those pushed for it, in the order of
  the pushes, and lie in the entry vector as one contiguous slice; the slices follow the
  active list. \<open>csr_ranges\<close> gives, for each active feature \<open>f\<close>, the pair
  \<^verbatim>\<open>(tmp_rptr[f], tmp_rptr[f + 1])\<close> that \<^verbatim>\<open>expand\<close> reads.
\<close>

definition csr_aclist :: "nat list \<Rightarrow> nat list" where
  "csr_aclist budget = rev (remdups (rev budget))"

definition csr_column :: "(nat \<times> SCEntry) list \<Rightarrow> nat \<Rightarrow> SCEntry list" where
  "csr_column pushed f = map snd (filter (\<lambda>fe. fst fe = f) pushed)"

definition csr_entry :: "(nat \<times> SCEntry) list \<Rightarrow> nat list \<Rightarrow> SCEntry list" where
  "csr_entry pushed aclist = concat (map (csr_column pushed) aclist)"

fun csr_ranges :: "(nat \<times> SCEntry) list \<Rightarrow> nat list \<Rightarrow> nat \<Rightarrow> (nat \<times> nat \<times> nat) list" where
  "csr_ranges pushed [] off = []"
| "csr_ranges pushed (f # fs) off =
     (f, off, off + length (csr_column pushed f))
       # csr_ranges pushed fs (off + length (csr_column pushed f))"

text \<open>
  The loop of \<^verbatim>\<open>expand\<close> over the active features. \<^verbatim>\<open>std::sort\<close> orders the slice of the
  feature by \<open>fvalue\<close>; the order it leaves among equal values is not fixed, the model
  keeps their order.
\<close>

fun enumerate_features ::
  "TreeParamTrain \<Rightarrow> real list \<Rightarrow> real list \<Rightarrow> real \<Rightarrow> real \<Rightarrow> real \<Rightarrow> real \<Rightarrow>
   (nat \<times> nat \<times> nat) list \<Rightarrow> SCEntry list \<Rightarrow> RTSelecter \<Rightarrow> error + SCEntry list \<times> RTSelecter" where
  "enumerate_features p grad hess rsum_grad rsum_hess root_cost bw [] entry sglobal =
     Inr (entry, sglobal)"
| "enumerate_features p grad hess rsum_grad rsum_hess root_cost bw ((findex, st, en) # rest)
       entry sglobal =
     (if \<not> st < en then Inl AssertFail
      else
        let entry' = take st entry @ sort_key fvalue (take (en - st) (drop st entry))
                       @ drop en entry
        in
        case enumerate_split p grad hess sglobal rsum_grad rsum_hess root_cost entry' st en
               (word_of_nat findex) bw of
          Inl err \<Rightarrow> Inl err
        | Inr sglobal' \<Rightarrow>
            enumerate_features p grad hess rsum_grad rsum_hess root_cost bw rest entry' sglobal')"

text \<open>
  The search of \<^verbatim>\<open>expand\<close>, from the storage phase to \<^verbatim>\<open>sglobal.select()\<close>: the column-major
  matrix is built and every active feature is enumerated. The result is the entry vector
  and the best candidate.
\<close>

definition find_split ::
  "RTreeUpdater \<Rightarrow> Task \<Rightarrow> real \<Rightarrow> real \<Rightarrow> nat list \<Rightarrow> error + SCEntry list \<times> Entry" where
  "find_split u tsk rsum_grad rsum_hess budget =
     (case storage_pass (u_idset u) (u_smat u) tsk 0 [] of Inl err \<Rightarrow> Inl err
      | Inr pushed \<Rightarrow>
          let aclist = csr_aclist budget;
              root_cost = CalcRootCost (u_param u) rsum_grad rsum_hess;
              bw = CalcWeight (u_param u) rsum_grad rsum_hess (t_parent_base_weight tsk)
          in
          case enumerate_features (u_param u) (u_grad u) (u_hess u) rsum_grad rsum_hess
                 root_cost bw (csr_ranges pushed aclist 0) (csr_entry pushed aclist)
                 RTSelecter_new of
            Inl err \<Rightarrow> Inl err
          | Inr (entry, sglobal) \<Rightarrow> Inr (entry, select sglobal))"

definition expand :: "RTreeUpdater \<Rightarrow> Task \<Rightarrow> (error + RTreeUpdater) option" where
  "expand u0 tsk =
     Option.bind (GetDepth (u_tree u0) (t_nid tsk))
       (\<lambda>r. case r of Inl err \<Rightarrow> Some (Inl err)
        | Inr depth \<Rightarrow>
            let u = (if depth > u_max_depth u0 then u0\<lparr>u_max_depth := depth\<rparr> else u0) in
            if depth \<ge> max_depth (u_param u) then make_leaf u tsk 0 0 True
            else
              case budget_pass (u_idset u) (u_grad u) (u_hess u) (u_smat u)
                     (num_feature (u_tree u)) tsk 0 0 0 [] of
                Inl err \<Rightarrow> Some (Inl err)
              | Inr (rsum_grad, rsum_hess, budget) \<Rightarrow>
                  if cannot_split (u_param u) rsum_hess depth
                  then make_leaf u tsk rsum_grad rsum_hess False
                  else
                    case find_split u tsk rsum_grad rsum_hess budget of
                      Inl err \<Rightarrow> Some (Inl err)
                    | Inr (entry, e) \<Rightarrow>
                        if loss_chg e > rt_eps then
                          (case node_at (u_tree u) (t_nid tsk) of Inl err \<Rightarrow> Some (Inl err)
                           | Inr n \<Rightarrow>
                               Some (make_split
                                 (u\<lparr>u_tree := (u_tree u)\<lparr>nodes := (nodes (u_tree u))
                                    [nat (t_nid tsk) :=
                                       set_split n (split_index e) (split_value e) (default_left e)]\<rparr>\<rparr>)
                                 tsk entry (start e) (len e) (loss_chg e)
                                 (CalcWeight (u_param u) rsum_grad rsum_hess
                                    (t_parent_base_weight tsk))))
                        else make_leaf u tsk rsum_grad rsum_hess False)"

text \<open>\<^verbatim>\<open>do_boost\<close> after \<^verbatim>\<open>init_tasks\<close>: tasks are popped and expanded until the stack is empty.\<close>

partial_function (option) boost_loop :: "RTreeUpdater \<Rightarrow> (error + RTreeUpdater) option" where
  "boost_loop u =
     (case next_task u of None \<Rightarrow> Some (Inr u)
      | Some (tsk, u') \<Rightarrow>
          Option.bind (expand u' tsk)
            (\<lambda>r. case r of Inl err \<Rightarrow> Some (Inl err) | Inr u'' \<Rightarrow> boost_loop u''))"

subsection \<open>init\_tasks\<close>

text \<open>
  The two loops of the single-root mode. \<open>SampleBinary\<close> stands for \<^verbatim>\<open>random::SampleBinary\<close>,
  which is declared in \<^verbatim>\<open>xgboost_random.h\<close>, not part of the source: it is a parameter, the
  result of the call made for row \<open>i\<close>.
\<close>

function init_all :: "real list \<Rightarrow> nat \<Rightarrow> nat \<Rightarrow> 32 word list \<Rightarrow> error + 32 word list" where
  "init_all hess ngrads i ids =
     (if i < ngrads then
        (case get hess i of Inl err \<Rightarrow> Inl err
         | Inr h \<Rightarrow>
             if h < 0 then init_all hess ngrads (i + 1) ids
             else init_all hess ngrads (i + 1) (ids @ [word_of_nat i]))
      else Inr ids)"
  by pat_completeness auto
termination
  by (relation "measure (\<lambda>(hess, ngrads, i, ids). ngrads - i)") auto

declare init_all.simps [simp del]

function init_sampled ::
  "(nat \<Rightarrow> real \<Rightarrow> int) \<Rightarrow> real \<Rightarrow> nat \<Rightarrow> nat \<Rightarrow> 32 word list \<Rightarrow> 32 word list" where
  "init_sampled SampleBinary sub ngrads i ids =
     (if i < ngrads then
        (if SampleBinary i sub \<noteq> 0
         then init_sampled SampleBinary sub ngrads (i + 1) (ids @ [word_of_nat i])
         else init_sampled SampleBinary sub ngrads (i + 1) ids)
      else ids)"
  by pat_completeness auto
termination
  by (relation "measure (\<lambda>(SampleBinary, sub, ngrads, i, ids). ngrads - i)") auto

declare init_sampled.simps [simp del]

text \<open>
  The grouped mode, with the builder modelled from the spec as above (section 4.7): the
  rows with \<open>hess \<ge> 0\<close> are laid out group by group, and every non-empty group \<open>g\<close> gets a
  task at node \<open>g\<close>.
\<close>

definition group_rows :: "real list \<Rightarrow> 32 word list \<Rightarrow> nat \<Rightarrow> 32 word list" where
  "group_rows hess gid g =
     map word_of_nat (filter (\<lambda>i. \<not> hess ! i < 0 \<and> unat (gid ! i) = g) [0..<length gid])"

fun group_tasks :: "real list \<Rightarrow> 32 word list \<Rightarrow> nat list \<Rightarrow> nat \<Rightarrow> Task list" where
  "group_tasks hess gid [] off = []"
| "group_tasks hess gid (g # gs) off =
     (let rows = group_rows hess gid g in
      (if rows = [] then []
       else [\<lparr>t_nid = int g, t_idset = off, t_len = word_of_nat (length rows),
              t_parent_base_weight = 0\<rparr>])
      @ group_tasks hess gid gs (off + length rows))"

definition init_tasks :: "(nat \<Rightarrow> real \<Rightarrow> int) \<Rightarrow> RTreeUpdater \<Rightarrow> nat \<Rightarrow> error + RTreeUpdater" where
  "init_tasks SampleBinary u ngrads =
     (if length (u_group_id u) = 0 then
        (case (if subsample (u_param u) > 1 - 1 / 1000000
               then init_all (u_hess u) ngrads 0 []
               else Inr (init_sampled SampleBinary (subsample (u_param u)) ngrads 0 [])) of
           Inl err \<Rightarrow> Inl err
         | Inr ids \<Rightarrow>
             Inr (add_task (u\<lparr>u_idset := ids\<rparr>)
                    \<lparr>t_nid = 0, t_idset = 0, t_len = word_of_nat (length ids),
                     t_parent_base_weight = 0\<rparr>))
      else if length (u_group_id u) \<noteq> ngrads then Inl AssertFail
      else if length (u_hess u) < ngrads then Inl OutOfBounds
      else if \<exists>i \<in> set [0..<ngrads]. \<not> u_hess u ! i < 0
                \<and> \<not> int (unat (u_group_id u ! i)) < num_roots (u_tree u) then Inl AssertFail
      else
        let groups = [0..<nat (num_roots (u_tree u))] in
        Inr (u\<lparr>u_idset := concat (map (group_rows (u_hess u) (u_group_id u)) groups),
               u_task_stack := u_task_stack u
                 @ group_tasks (u_hess u) (u_group_id u) groups 0\<rparr>))"

subsection \<open>RTreeTrainer: prediction\<close>

text \<open>The trainer: its tree and the two scratch vectors of the sparse prediction.\<close>

record RTreeTrainer =
  tr_tree :: RTree
  tmp_feat :: "real list"
  tmp_funknown :: "bool list"

text \<open>
  \<^verbatim>\<open>init_tmpfeat\<close>. \<^verbatim>\<open>resize\<close> keeps the values it has and fills with zero; the mask is then
  filled with \<open>True\<close>. A negative \<^verbatim>\<open>num_feature\<close> is an impossible size.
\<close>

definition init_tmpfeat :: "RTreeTrainer \<Rightarrow> error + RTreeTrainer" where
  "init_tmpfeat tr =
     (if num_feature (tr_tree tr) < 0 then Inl OutOfBounds
      else if int (length (tmp_feat tr)) \<noteq> num_feature (tr_tree tr) then
        let n = nat (num_feature (tr_tree tr)) in
        Inr (tr\<lparr>tmp_feat := take n (tmp_feat tr) @ replicate (n - length (tmp_feat tr)) 0,
                tmp_funknown := replicate n True\<rparr>)
      else Inr tr)"

definition get_next :: "RTree \<Rightarrow> int \<Rightarrow> real \<Rightarrow> bool \<Rightarrow> error + int" where
  "get_next t pid fv is_unknown =
     (case node_at t pid of Inl err \<Rightarrow> Inl err
      | Inr n \<Rightarrow>
          let sv = split_cond n in
          if is_unknown then
            (if node_default_left n then Inr (cleft n) else Inr (cright n))
          else
            (if fv < sv then Inr (cleft n) else Inr (cright n)))"

text \<open>
  The loop of \<^verbatim>\<open>GetLeafIndex\<close>, from the node \<open>pid\<close>. On an array whose child links cycle the
  loop need not end: the value is then \<open>None\<close>.
\<close>

partial_function (option) leaf_walk ::
  "RTree \<Rightarrow> real list \<Rightarrow> bool list \<Rightarrow> int \<Rightarrow> (error + int) option" where
  "leaf_walk t feat funknown pid =
     (case node_at t pid of Inl err \<Rightarrow> Some (Inl err)
      | Inr n \<Rightarrow>
          if is_leaf n then Some (Inr pid)
          else
            let si = node_split_index n in
            case get feat (unat si) of Inl err \<Rightarrow> Some (Inl err) | Inr fv \<Rightarrow>
            case get funknown (unat si) of Inl err \<Rightarrow> Some (Inl err) | Inr unk \<Rightarrow>
            case get_next t pid fv unk of Inl err \<Rightarrow> Some (Inl err)
            | Inr nxt \<Rightarrow> leaf_walk t feat funknown nxt)"

definition GetLeafIndex ::
  "RTree \<Rightarrow> real list \<Rightarrow> bool list \<Rightarrow> 32 word \<Rightarrow> (error + int) option" where
  "GetLeafIndex t feat funknown gid = leaf_walk t feat funknown (sint gid)"


text \<open>The two loops of the sparse \<^verbatim>\<open>Predict\<close> over the entries of the row.\<close>

fun set_known :: "(32 word \<times> real) list \<Rightarrow> RTreeTrainer \<Rightarrow> error + RTreeTrainer" where
  "set_known [] tr = Inr tr"
| "set_known (fv # rest) tr =
     (if \<not> unat (fst fv) < length (tmp_funknown tr) then Inl AssertFail
      else
        case put (tmp_funknown tr) (unat (fst fv)) False of Inl err \<Rightarrow> Inl err
        | Inr unk \<Rightarrow>
            (case put (tmp_feat tr) (unat (fst fv)) (snd fv) of Inl err \<Rightarrow> Inl err
             | Inr ft \<Rightarrow> set_known rest (tr\<lparr>tmp_funknown := unk, tmp_feat := ft\<rparr>)))"

fun set_back :: "(32 word \<times> real) list \<Rightarrow> RTreeTrainer \<Rightarrow> error + RTreeTrainer" where
  "set_back [] tr = Inr tr"
| "set_back (fv # rest) tr =
     (case put (tmp_funknown tr) (unat (fst fv)) True of Inl err \<Rightarrow> Inl err
      | Inr unk \<Rightarrow> set_back rest (tr\<lparr>tmp_funknown := unk\<rparr>))"

text \<open>The sparse \<^verbatim>\<open>Predict\<close>: the value predicted and the trainer after the call.\<close>

definition Predict_sparse ::
  "RTreeTrainer \<Rightarrow> (32 word \<times> real) list \<Rightarrow> 32 word \<Rightarrow> (error + real \<times> RTreeTrainer) option" where
  "Predict_sparse tr0 feat gid =
     (case init_tmpfeat tr0 of Inl err \<Rightarrow> Some (Inl err)
      | Inr tr1 \<Rightarrow>
          (case set_known feat tr1 of Inl err \<Rightarrow> Some (Inl err)
           | Inr tr2 \<Rightarrow>
               Option.bind (GetLeafIndex (tr_tree tr2) (tmp_feat tr2) (tmp_funknown tr2) gid)
                 (\<lambda>r. case r of Inl err \<Rightarrow> Some (Inl err)
                  | Inr pid \<Rightarrow>
                      (case set_back feat tr2 of Inl err \<Rightarrow> Some (Inl err)
                       | Inr tr3 \<Rightarrow>
                           (case node_at (tr_tree tr3) pid of Inl err \<Rightarrow> Some (Inl err)
                            | Inr n \<Rightarrow> Some (Inr (leaf_value n, tr3)))))))"

subsection \<open>Notions used to state the properties\<close>

text \<open>The slice of the \<open>idset\<close> buffer that a task owns.\<close>

definition task_slice :: "32 word list \<Rightarrow> Task \<Rightarrow> 32 word list" where
  "task_slice ids tsk = take (unat (t_len tsk)) (drop (t_idset tsk) ids)"

text \<open>
  What the merge-style loop keeps of a list \<open>xs\<close>, element by element: an element equal to
  the head of \<open>q\<close> is dropped together with that head.
\<close>

fun merge_keep :: "'a list \<Rightarrow> 'a list \<Rightarrow> 'a list" where
  "merge_keep [] q = []"
| "merge_keep (x # xs) [] = x # merge_keep xs []"
| "merge_keep (x # xs) (y # ys) = (if x \<noteq> y then x # merge_keep xs (y # ys) else merge_keep xs ys)"

text \<open>
  The parent links from a node end: at a root, or outside of the node array. \<open>has_depth\<close>
  counts the steps to the root.
\<close>

inductive up_chain :: "RTree \<Rightarrow> int \<Rightarrow> bool" where
  up_out: "node_at t nid = Inl err \<Longrightarrow> up_chain t nid"
| up_root: "node_at t nid = Inr n \<Longrightarrow> is_root n \<Longrightarrow> up_chain t nid"
| up_step: "node_at t nid = Inr n \<Longrightarrow> \<not> is_root n \<Longrightarrow> up_chain t (parent n) \<Longrightarrow> up_chain t nid"



text \<open>
  The walk of the prediction in the words of the specification: from a leaf the walk has
  arrived; from a split it goes on at the left child if the split feature is unknown and
  the default direction is left, or if the feature is known and its value is below the
  threshold, and at the right child otherwise.
\<close>

inductive reaches_leaf :: "RTree \<Rightarrow> real list \<Rightarrow> bool list \<Rightarrow> int \<Rightarrow> int \<Rightarrow> bool" where
  rl_leaf: "node_at t pid = Inr n \<Longrightarrow> is_leaf n \<Longrightarrow> reaches_leaf t feat funknown pid pid"
| rl_step: "node_at t pid = Inr n \<Longrightarrow> \<not> is_leaf n \<Longrightarrow>
            unat (node_split_index n) < length feat \<Longrightarrow>
            unat (node_split_index n) < length funknown \<Longrightarrow>
            reaches_leaf t feat funknown
              (if funknown ! unat (node_split_index n)
               then (if node_default_left n then cleft n else cright n)
               else (if feat ! unat (node_split_index n) < split_cond n then cleft n
                     else cright n)) l \<Longrightarrow>
            reaches_leaf t feat funknown pid l"


text \<open>Two node arrays with the same parent links.\<close>

definition same_parents :: "RTree \<Rightarrow> RTree \<Rightarrow> bool" where
  "same_parents t t' = (map parent (nodes t') = map parent (nodes t))"

subsection \<open>Example inputs\<close>

definition ex_param :: TreeParamTrain where
  "ex_param = \<lparr>learning_rate = 1, min_child_weight = 1, max_depth = 2, default_direction = 0,
     subsample = 1,
     CalcWeight = (\<lambda>g h w. - g / (h + 1)),
     CalcCost = (\<lambda>g h w. g * g / (h + 1)),
     CalcRootCost = (\<lambda>g h. g * g / (h + 1)),
     need_prune = (\<lambda>lc d. lc < 1),
     cannot_split = (\<lambda>h d. h < 2)\<rparr>"

definition ex_column :: "SCEntry list" where
  "ex_column = [\<lparr>fvalue = 1, rindex = 0\<rparr>, \<lparr>fvalue = 2, rindex = 1\<rparr>, \<lparr>fvalue = 3, rindex = 2\<rparr>]"

definition ex_cands :: "Entry list" where
  "ex_cands = [mk_Entry 1 0 1 3 0.5 False, mk_Entry 4 0 2 3 1.5 False, mk_Entry 4 2 1 3 1.5 True,
     mk_Entry (-2) 0 1 5 7 False]"

text \<open>A tree of one root, and an updater over three rows whose ids are 1, 3 and 5.\<close>

definition ex_tree :: RTree where
  "ex_tree = \<lparr>nodes = [new_node (-1)], num_feature = 2, num_roots = 1, tree_max_depth = 0\<rparr>"

definition ex_upd :: RTreeUpdater where
  "ex_upd = \<lparr>u_param = ex_param, u_tree = ex_tree,
     u_grad = [0, 1, 0, 1, 0, -2], u_hess = [1, 1, 1, 1, 1, 1],
     u_smat = [] # [(0, 1)] # [] # [(0, 2)] # [] # [(0, 3)] # [], u_group_id = [],
     u_max_depth = 0, u_num_pruned = 0, u_task_stack = [], u_idset = [1, 3, 5]\<rparr>"

definition ex_task :: Task where
  "ex_task = \<lparr>t_nid = 0, t_idset = 0, t_len = 3, t_parent_base_weight = 0\<rparr>"

definition ex_entry :: "SCEntry list" where
  "ex_entry = [\<lparr>fvalue = 1, rindex = 5\<rparr>, \<lparr>fvalue = 2, rindex = 1\<rparr>, \<lparr>fvalue = 3, rindex = 3\<rparr>]"

definition ex_dup_entry :: "SCEntry list" where
  "ex_dup_entry = [\<lparr>fvalue = 1, rindex = 3\<rparr>, \<lparr>fvalue = 2, rindex = 3\<rparr>]"

text \<open>A split with two leaves whose gain is below the pruning threshold of \<open>ex_param\<close>.\<close>

definition ex_split_tree :: RTree where
  "ex_split_tree = \<lparr>nodes =
       [(new_node (-1))\<lparr>cleft := 1, cright := 2,
           node_stat := \<lparr>stat_loss_chg = 0.5, base_weight = 3, leaf_child_cnt = 1\<rparr>\<rparr>,
        new_node 0, new_node 0],
     num_feature = 2, num_roots = 1, tree_max_depth = 0\<rparr>"

definition ex_prune_upd :: RTreeUpdater where
  "ex_prune_upd = ex_upd\<lparr>u_tree := ex_split_tree\<rparr>"


text \<open>Two rows, the first to be ignored (\<open>hess < 0\<close>), and a sampler that takes every row.\<close>

definition ex_sub_upd :: RTreeUpdater where
  "ex_sub_upd = \<lparr>u_param = ex_param\<lparr>subsample := 0.5\<rparr>, u_tree = ex_tree,
     u_grad = [1, 1], u_hess = [-1, 1], u_smat = [] # [] # [], u_group_id = [],
     u_max_depth = 0, u_num_pruned = 0, u_task_stack = [], u_idset = []\<rparr>"

definition ex_take_all :: "nat \<Rightarrow> real \<Rightarrow> int" where
  "ex_take_all i p = 1"

text \<open>A finished tree: a split on feature 1 at 2.5, default left, with the leaves 10 and 20.\<close>

definition ex_pred_tree :: RTree where
  "ex_pred_tree = \<lparr>nodes =
       [(new_node (-1))\<lparr>cleft := 1, cright := 2, node_split_index := 1, split_cond := 2.5,
           node_default_left := True\<rparr>,
        (new_node 0)\<lparr>leaf_value := 10\<rparr>, (new_node 0)\<lparr>leaf_value := 20\<rparr>],
     num_feature = 2, num_roots = 1, tree_max_depth = 1\<rparr>"

definition ex_trainer :: RTreeTrainer where
  "ex_trainer = \<lparr>tr_tree = ex_pred_tree, tmp_feat = [7, 8], tmp_funknown = [True, True]\<rparr>"

section \<open>Properties\<close>

subsection \<open>The split-index encoding\<close>











subsection \<open>The selecter\<close>

lemma foldl_push_back_cases:
  fixes s :: RTSelecter and es :: "Entry list"
  defines "r \<equiv> best_entry (foldl push_back s es)"
  shows "(r = best_entry s \<and> (\<forall>e\<in>set es. loss_chg e \<le> loss_chg (best_entry s)))
       \<or> (\<exists>i<length es. r = es ! i \<and> loss_chg (best_entry s) < loss_chg (es ! i)
            \<and> (\<forall>j<length es. loss_chg (es ! j) \<le> loss_chg (es ! i))
            \<and> (\<forall>j<i. loss_chg (es ! j) < loss_chg (es ! i)))"
  unfolding r_def
proof (induction es rule: rev_induct)
  case Nil
  then show ?case by simp
next
  case (snoc e es)
  let ?r = "best_entry (foldl push_back s es)"
  show ?case
  proof (cases "loss_chg e > loss_chg ?r")
    case True
    then have r': "best_entry (foldl push_back s (es @ [e])) = e"
      by (simp add: push_back_def)
    have ge: "loss_chg (best_entry s) \<le> loss_chg ?r"
      using snoc.IH by auto
    have all: "\<forall>j<length es. loss_chg (es ! j) \<le> loss_chg ?r"
      using snoc.IH nth_mem [of _ es] by fastforce
    have "\<exists>i<length (es @ [e]). e = (es @ [e]) ! i
            \<and> loss_chg (best_entry s) < loss_chg ((es @ [e]) ! i)
            \<and> (\<forall>j<length (es @ [e]). loss_chg ((es @ [e]) ! j) \<le> loss_chg ((es @ [e]) ! i))
            \<and> (\<forall>j<i. loss_chg ((es @ [e]) ! j) < loss_chg ((es @ [e]) ! i))"
      apply (rule exI [of _ "length es"])
      using True ge all by (auto simp: nth_append less_Suc_eq)
    then show ?thesis unfolding r' by blast
  next
    case False
    then have r': "best_entry (foldl push_back s (es @ [e])) = ?r"
      by (simp add: push_back_def)
    from snoc.IH show ?thesis
    proof
      assume "?r = best_entry s \<and> (\<forall>e\<in>set es. loss_chg e \<le> loss_chg (best_entry s))"
      then show ?thesis unfolding r' using False by auto
    next
      assume "\<exists>i<length es. ?r = es ! i \<and> loss_chg (best_entry s) < loss_chg (es ! i)
            \<and> (\<forall>j<length es. loss_chg (es ! j) \<le> loss_chg (es ! i))
            \<and> (\<forall>j<i. loss_chg (es ! j) < loss_chg (es ! i))"
      then obtain i where i: "i < length es" "?r = es ! i"
        "loss_chg (best_entry s) < loss_chg (es ! i)"
        "\<forall>j<length es. loss_chg (es ! j) \<le> loss_chg (es ! i)"
        "\<forall>j<i. loss_chg (es ! j) < loss_chg (es ! i)"
        by blast
      have "\<exists>i<length (es @ [e]). ?r = (es @ [e]) ! i
            \<and> loss_chg (best_entry s) < loss_chg ((es @ [e]) ! i)
            \<and> (\<forall>j<length (es @ [e]). loss_chg ((es @ [e]) ! j) \<le> loss_chg ((es @ [e]) ! i))
            \<and> (\<forall>j<i. loss_chg ((es @ [e]) ! j) < loss_chg ((es @ [e]) ! i))"
        apply (rule exI [of _ i])
        using i False by (auto simp: nth_append less_Suc_eq)
      then show ?thesis unfolding r' by blast
    qed
  qed
qed

lemma global_best_nonneg: "0 \<le> loss_chg (best_entry (foldl push_back RTSelecter_new es))"
  using foldl_push_back_cases [of RTSelecter_new es]
  by (auto simp: RTSelecter_new_def zero_Entry_def)

text \<open>
  C7. After any sequence \<open>es\<close> of candidates is pushed into a new selecter: if some
  candidate has a positive \<open>loss_chg\<close>, \<open>select\<close> returns the first pushed candidate among
  those of maximal \<open>loss_chg\<close> (every candidate is at most as good, every earlier one is
  strictly worse), and its \<open>loss_chg\<close> is positive; otherwise \<open>select\<close> returns the
  zero-initialised entry, whose \<open>loss_chg\<close> is 0.
\<close>

theorem select_first_max:
  "(if \<exists>e\<in>set es. loss_chg e > 0
    then \<exists>i<length es. select (foldl push_back RTSelecter_new es) = es ! i
           \<and> loss_chg (es ! i) > 0
           \<and> (\<forall>j<length es. loss_chg (es ! j) \<le> loss_chg (es ! i))
           \<and> (\<forall>j<i. loss_chg (es ! j) < loss_chg (es ! i))
    else select (foldl push_back RTSelecter_new es) = zero_Entry \<and> loss_chg zero_Entry = 0)"
proof -
  have z: "best_entry RTSelecter_new = zero_Entry" "loss_chg zero_Entry = 0"
    by (simp_all add: RTSelecter_new_def zero_Entry_def)
  show ?thesis
  proof (cases "\<exists>e\<in>set es. loss_chg e > 0")
    case True
    then have "\<not> (\<forall>e\<in>set es. loss_chg e \<le> loss_chg (best_entry RTSelecter_new))"
      unfolding z by (simp add: not_le)
    then show ?thesis
      using foldl_push_back_cases [of RTSelecter_new es] True unfolding z select_def
      by (simp only: if_True) blast
  next
    case False
    have "\<And>i. i < length es \<Longrightarrow> \<not> 0 < loss_chg (es ! i)"
      using False nth_mem by blast
    then have "select (foldl push_back RTSelecter_new es) = zero_Entry"
      using foldl_push_back_cases [of RTSelecter_new es] unfolding z select_def by blast
    then show ?thesis using False z by (simp only: if_False simp_thms)
  qed
qed

theorem select_first_max_witness:
  "(\<exists>e\<in>set ex_cands. loss_chg e > 0)
   \<and> (\<exists>i<length ex_cands. select (foldl push_back RTSelecter_new ex_cands) = ex_cands ! i
           \<and> loss_chg (ex_cands ! i) > 0
           \<and> (\<forall>j<length ex_cands. loss_chg (ex_cands ! j) \<le> loss_chg (ex_cands ! i))
           \<and> (\<forall>j<i. loss_chg (ex_cands ! j) < loss_chg (ex_cands ! i)))
   \<and> select (foldl push_back RTSelecter_new ex_cands) = mk_Entry 4 0 2 3 1.5 False"
proof -
  have pos: "\<exists>e\<in>set ex_cands. loss_chg e > 0"
    by (simp add: ex_cands_def mk_Entry_def)
  have sel: "select (foldl push_back RTSelecter_new ex_cands) = mk_Entry 4 0 2 3 1.5 False"
    by (simp add: ex_cands_def mk_Entry_def push_back_def RTSelecter_new_def zero_Entry_def
        select_def)
  show ?thesis
    using select_first_max [of ex_cands] pos sel by (simp only: if_True simp_thms)
qed

subsection \<open>The forward sweep\<close>






subsection \<open>A feature without a candidate\<close>

text \<open>
  C10. \<open>enumerate_split\<close> pushes the local winner into the global selecter in every case.
  When neither sweep produced a candidate, the local selecter is still the new one, the
  entry pushed is the zero-initialised one (\<open>loss_chg = 0\<close>), and the global selecter (a
  new selecter that received any candidates \<open>es\<close>) is left as it was.
\<close>

theorem enumerate_split_no_candidate:
  assumes "default_direction p \<noteq> 1 \<longrightarrow>
             forward_sweep p grad hess rg rh rc entry st en findex pbw st 0 0 = Inr []"
    and "default_direction p \<noteq> 2 \<longrightarrow>
             backward_sweep p grad hess rg rh rc entry st en findex pbw en 0 0 = Inr []"
    and "sglobal = foldl push_back RTSelecter_new es"
  shows "enumerate_local p grad hess rg rh rc entry st en findex pbw = Inr RTSelecter_new
       \<and> select RTSelecter_new = zero_Entry \<and> loss_chg zero_Entry = 0
       \<and> enumerate_split p grad hess sglobal rg rh rc entry st en findex pbw = Inr sglobal"
proof -
  have loc: "enumerate_local p grad hess rg rh rc entry st en findex pbw = Inr RTSelecter_new"
    using assms(1,2) by (simp add: enumerate_local_def)
  have sel: "select RTSelecter_new = zero_Entry"
    by (simp add: select_def RTSelecter_new_def zero_Entry_def)
  have "push_back sglobal zero_Entry = sglobal"
    using global_best_nonneg [of es] assms(3) by (simp add: push_back_def zero_Entry_def)
  then show ?thesis
    using loc sel by (simp add: enumerate_split_def zero_Entry_def)
qed

theorem enumerate_split_no_candidate_witness:
  "enumerate_split (ex_param\<lparr>min_child_weight := 10\<rparr>) [1, 1, -1] [1, 1, 1]
      (foldl push_back RTSelecter_new ex_cands) 0 3 0 ex_column 0 3 7 0
     = Inr (foldl push_back RTSelecter_new ex_cands)
   \<and> select (foldl push_back RTSelecter_new ex_cands) = mk_Entry 4 0 2 3 1.5 False"
proof -
  have f: "forward_sweep (ex_param\<lparr>min_child_weight := 10\<rparr>) [1, 1, -1] [1, 1, 1] 0 3 0
             ex_column 0 3 7 0 0 0 0 = Inr []"
    by (simp add: forward_sweep.simps get_def ex_param_def ex_column_def rt_2eps_def rt_eps_def)
  have b: "backward_sweep (ex_param\<lparr>min_child_weight := 10\<rparr>) [1, 1, -1] [1, 1, 1] 0 3 0
             ex_column 0 3 7 0 3 0 0 = Inr []"
    by (simp add: backward_sweep.simps get_def ex_param_def ex_column_def rt_2eps_def rt_eps_def)
  have sel: "select (foldl push_back RTSelecter_new ex_cands) = mk_Entry 4 0 2 3 1.5 False"
    by (simp add: ex_cands_def mk_Entry_def push_back_def RTSelecter_new_def zero_Entry_def
        select_def)
  show ?thesis
    using enumerate_split_no_candidate [of "ex_param\<lparr>min_child_weight := 10\<rparr>"
        "[1, 1, -1]" "[1, 1, 1]" 0 3 0 ex_column 0 3 7 0 "foldl push_back RTSelecter_new ex_cands"
        ex_cands] f b sel
    by simp
qed

subsection \<open>make\_split\<close>

lemma merge_keep_Nil [simp]: "merge_keep xs [] = xs"
  by (induction xs) auto

lemma merge_keep_sorted:
  "sorted_wrt (<) xs \<Longrightarrow> sorted_wrt (<) q \<Longrightarrow> set q \<subseteq> set xs \<Longrightarrow>
     merge_keep xs q = filter (\<lambda>x. x \<notin> set q) (xs :: 'a :: linorder list)"
proof (induction xs q rule: merge_keep.induct)
  case (1 q)
  then show ?case by simp
next
  case (2 x xs)
  then show ?case by simp
next
  case (3 x xs y ys)
  show ?case
  proof (cases "x = y")
    case True
    have "set ys \<subseteq> set xs" using 3(4,5) True by auto
    moreover have "x \<notin> set xs" using 3(3) by auto
    ultimately show ?thesis using 3 True
      by (auto intro!: filter_cong)
  next
    case False
    then have "y \<in> set xs" using 3(5) by auto
    then have "x < y" using 3(3) by auto
    then have "x \<notin> set (y # ys)" using 3(4) by auto
    moreover have "set (y # ys) \<subseteq> set xs" using 3(5) calculation by auto
    ultimately show ?thesis using 3 False by auto
  qed
qed

lemma length_filter_notin:
  assumes "distinct xs" "distinct q" "set q \<subseteq> set xs"
  shows "length (filter (\<lambda>x. x \<notin> set q) xs) + length q = length xs"
proof -
  have "set (filter (\<lambda>x. x \<in> set q) xs) = set q" using assms(3) by auto
  moreover have "distinct (filter (\<lambda>x. x \<in> set q) xs)" using assms(1) by simp
  ultimately have "length (filter (\<lambda>x. x \<in> set q) xs) = length q"
    using assms(2) by (metis distinct_card)
  then show ?thesis
    using sum_length_filter_compl [of "\<lambda>x. x \<in> set q" xs] by simp
qed

lemma collect_qset_run:
  "off + nat num \<le> length entry \<Longrightarrow> i \<le> nat num \<Longrightarrow>
   collect_qset entry off num i qset
     = Inr (qset @ map rindex (take (nat num - i) (drop (off + i) entry)))"
proof (induction "nat num - i" arbitrary: i qset)
  case 0
  then have "\<not> int i < num" by linarith
  then show ?case using 0 by (subst collect_qset.simps) simp
next
  case (Suc k)
  then have i: "i < nat num" "int i < num" by auto
  let ?e = "entry ! (off + i)"
  have g: "get entry (off + i) = Inr ?e"
    using i Suc.prems by (simp add: get_def)
  have d: "drop (off + i) entry = ?e # drop (off + (i + 1)) entry"
    using Cons_nth_drop_Suc [of "off + i" entry] i Suc.prems by simp
  have ni: "nat num - i = Suc (nat num - (i + 1))" using i by simp
  have step: "collect_qset entry off num i qset
      = collect_qset entry off num (i + 1) (qset @ [rindex ?e])"
    by (subst collect_qset.simps) (simp add: i g)
  have IH: "collect_qset entry off num (i + 1) (qset @ [rindex ?e])
      = Inr ((qset @ [rindex ?e]) @ map rindex (take (nat num - (i + 1)) (drop (off + (i + 1)) entry)))"
    using Suc.hyps(1) [of "i + 1" "qset @ [rindex ?e]"] Suc.hyps(2) Suc.prems i by simp
  show ?case unfolding step IH ni d by simp
qed

lemma fill_back_run:
  "pos + n \<le> length ids \<Longrightarrow> n \<le> length qset \<Longrightarrow> i \<le> n \<Longrightarrow>
   fill_back ids pos qset n i
     = Inr (take (pos + i) ids @ take (n - i) (drop i qset) @ drop (pos + n) ids)"
proof (induction "n - i" arbitrary: i ids)
  case 0
  then show ?case by (subst fill_back.simps) simp
next
  case (Suc k)
  then have i: "i < n" by simp
  let ?ids' = "ids[pos + i := qset ! i]"
  have g: "get qset i = Inr (qset ! i)" using i Suc.prems by (simp add: get_def)
  have p: "put ids (pos + i) (qset ! i) = Inr ?ids'"
    using i Suc.prems by (simp add: put_def)
  have d: "drop i qset = qset ! i # drop (i + 1) qset"
    using Cons_nth_drop_Suc [of i qset] i Suc.prems by simp
  have ni: "n - i = Suc (n - (i + 1))" using i by simp
  have tk: "take (pos + (i + 1)) ?ids' = take (pos + i) ids @ [qset ! i]"
    using i Suc.prems by (simp add: take_Suc_conv_app_nth)
  have dr: "drop (pos + n) ?ids' = drop (pos + n) ids"
    using i by simp
  have step: "fill_back ids pos qset n i = fill_back ?ids' pos qset n (i + 1)"
    by (subst fill_back.simps) (simp add: i g p)
  have IH: "fill_back ?ids' pos qset n (i + 1)
      = Inr (take (pos + (i + 1)) ?ids' @ take (n - (i + 1)) (drop (i + 1) qset)
             @ drop (pos + n) ?ids')"
    using Suc.hyps(1) [of "i + 1" ?ids'] Suc.hyps(2) Suc.prems i by simp
  show ?case unfolding step IH tk dr ni d by simp
qed

lemma fill_back_all:
  "pos + length qset \<le> length ids \<Longrightarrow>
   fill_back ids pos qset (length qset) 0 = Inr (take pos ids @ qset @ drop (pos + length qset) ids)"
  using fill_back_run [of pos "length qset" ids qset 0] by simp

lemma unat_of_nat32: "k < 2 ^ 32 \<Longrightarrow> unat (word_of_nat k :: 32 word) = k"
  by (simp add: unat_of_nat)

lemma unat_sub_of_nat32: "k \<le> unat (w :: 32 word) \<Longrightarrow> unat (w - word_of_nat k) = unat w - k"
proof -
  assume k: "k \<le> unat w"
  have "unat w < 2 ^ 32" using unsigned_less [of w, where 'a=nat] by simp
  then have k32: "k < 2 ^ 32" using k by simp
  have "word_of_nat k \<le> w" using k k32 by (simp add: word_le_nat_alt unat_of_nat32)
  then have "unat (w - word_of_nat k) = unat w - unat (word_of_nat k :: 32 word)"
    by (rule unat_sub)
  then show ?thesis using unat_of_nat32 [OF k32] by simp
qed


lemma split_idset_run:
  "base + n \<le> length ids \<Longrightarrow> tp \<le> i \<Longrightarrow> i \<le> n \<Longrightarrow> tp \<le> length qset \<Longrightarrow>
   split_idset ids base n qset i tp =
     Inr (take (base + (i - tp)) ids
          @ merge_keep (take (n - i) (drop (base + i) ids)) (drop tp qset)
          @ drop (base + (i - tp) + length (merge_keep (take (n - i) (drop (base + i) ids)) (drop tp qset))) ids)"
proof (induction "n - i" arbitrary: i tp ids)
  case 0
  then show ?case by (subst split_idset.simps) simp
next
  case (Suc k)
  then have i: "i < n" by simp
  let ?x = "ids ! (base + i)"
  let ?w = "base + (i - tp)"
  let ?ids' = "ids[?w := ?x]"
  let ?rest = "take (n - (i + 1)) (drop (base + (i + 1)) ids)"
  have gx: "get ids (base + i) = Inr ?x" using i Suc.prems by (simp add: get_def)
  have w: "?w < length ids" "?w \<le> base + i" using i Suc.prems by auto
  have px: "put ids ?w ?x = Inr ?ids'" using w by (simp add: put_def)
  have d: "drop (base + i) ids = ?x # drop (base + (i + 1)) ids"
    using Cons_nth_drop_Suc [of "base + i" ids] i Suc.prems by simp
  have ni: "n - i = Suc (n - (i + 1))" using i by simp
  have rest: "take (n - i) (drop (base + i) ids) = ?x # ?rest"
    unfolding ni d by simp
  have rest': "take (n - (i + 1)) (drop (base + (i + 1)) ?ids') = ?rest"
    using w by simp
  have tk: "take (base + (i + 1 - tp)) ?ids' = take ?w ids @ [?x]"
  proof -
    have "base + (i + 1 - tp) = Suc ?w" using Suc.prems by simp
    then show ?thesis using w(1) by (simp add: take_Suc_conv_app_nth)
  qed
  have dr: "\<And>m. drop (base + (i + 1 - tp) + m) ?ids' = drop (?w + Suc m) ids"
  proof -
    fix m
    have "base + (i + 1 - tp) + m = ?w + Suc m" using Suc.prems by simp
    then show "drop (base + (i + 1 - tp) + m) ?ids' = drop (?w + Suc m) ids" by simp
  qed
  have IH_keep: "\<And>tp'. tp' = tp \<Longrightarrow> split_idset ?ids' base n qset (i + 1) tp =
     Inr (take ?w ids @ [?x] @ merge_keep ?rest (drop tp qset)
          @ drop (?w + Suc (length (merge_keep ?rest (drop tp qset)))) ids)"
    using Suc.hyps(1) [of "i + 1" ?ids' tp] Suc.hyps(2) Suc.prems i
    by (simp only: rest' tk dr length_list_update) simp
  show ?case
  proof (cases "tp < length qset")
    case True
    then have dq: "drop tp qset = qset ! tp # drop (tp + 1) qset"
      by (simp add: Cons_nth_drop_Suc)
    show ?thesis
    proof (cases "?x = qset ! tp")
      case False
      have "split_idset ids base n qset i tp = split_idset ?ids' base n qset (i + 1) tp"
        by (subst split_idset.simps) (simp add: i True gx px False)
      then show ?thesis
        unfolding rest dq using False IH_keep [OF refl] by (simp add: dq)
    next
      case eq: True
      have step: "split_idset ids base n qset i tp = split_idset ids base n qset (i + 1) (tp + 1)"
        by (subst split_idset.simps) (simp add: i True gx eq)
      have "i + 1 - (tp + 1) = i - tp" by simp
      then show ?thesis
        unfolding step rest dq
        using Suc.hyps(1) [of "i + 1" ids "tp + 1"] Suc.hyps(2) Suc.prems i True eq
        by simp
    qed
  next
    case False
    then have tq: "tp = length qset" using Suc.prems by simp
    have px': "put ids (base + (i - length qset)) ?x = Inr ?ids'" using px tq by simp
    have "split_idset ids base n qset i tp = split_idset ?ids' base n qset (i + 1) tp"
      by (subst split_idset.simps) (simp add: i False gx px')
    then show ?thesis
      unfolding rest using IH_keep [OF refl] tq by simp
  qed
qed


lemma AddChilds_node:
  assumes "node_at t nid = Inr n"
  shows "AddChilds t nid = Inr (t\<lparr>nodes := (nodes t)[nat nid := n\<lparr>cleft := int (length (nodes t)),
            cright := int (length (nodes t)) + 1\<rparr>] @ [new_node nid, new_node nid]\<rparr>)"
  using assms by (simp add: AddChilds_def Let_def)

lemma node_at_update_same:
  "node_at t nid = Inr n \<Longrightarrow> node_at (t\<lparr>nodes := (nodes t)[nat nid := n']\<rparr>) nid = Inr n'"
  by (auto simp: node_at_def split: if_splits)

lemma node_at_update_append_same:
  "node_at t nid = Inr n \<Longrightarrow> node_at (t\<lparr>nodes := (nodes t)[nat nid := n'] @ xs\<rparr>) nid = Inr n'"
  by (auto simp: node_at_def nth_append split: if_splits)

text \<open>
  C3 (amended). For a call of \<open>make_split\<close> at a node of the tree, on a task whose slice
  lies in the \<open>idset\<close> buffer and is strictly ascending, with an entry slice inside the entry
  vector whose row indices are pairwise distinct and all occur in the task's slice: the
  call succeeds and pushes two tasks, the default part \<open>d\<close> and then the split part \<open>s\<close>.
  \<open>d\<close> is at the left child iff the node's default direction is left, and \<open>s\<close> at the other
  child. \<open>d\<close> owns the first \<open>len - |qset|\<close> positions of the parent's slice and \<open>s\<close> the
  \<open>|qset|\<close> positions that follow. After the call the slice of \<open>d\<close> holds the parent's ids
  that are not in \<open>qset\<close>, the slice of \<open>s\<close> holds \<open>qset\<close> (the sorted row indices of
  the entry slice), both are strictly ascending, they are disjoint and their union is the
  parent's id set; the buffer outside of the parent's slice is unchanged.
\<close>

theorem make_split_partition:
  fixes u :: RTreeUpdater and tsk :: Task and entry :: "SCEntry list" and off :: nat and num :: int
  defines "ids \<equiv> u_idset u"
    and "qset \<equiv> sort (map rindex (take (nat num) (drop off entry)))"
  assumes node: "node_at (u_tree u) (t_nid tsk) = Inr n0"
    and range: "t_idset tsk + unat (t_len tsk) \<le> length ids"
    and erange: "off + nat num \<le> length entry"
    and srt: "sorted_wrt (<) (task_slice ids tsk)"
    and dist: "distinct (map rindex (take (nat num) (drop off entry)))"
    and sub: "set (map rindex (take (nat num) (drop off entry))) \<subseteq> set (task_slice ids tsk)"
  shows "\<exists>u' d s n. make_split u tsk entry off num lc bw = Inr u'
      \<and> u_task_stack u' = u_task_stack u @ [d, s]
      \<and> node_at (u_tree u') (t_nid tsk) = Inr n
      \<and> t_nid d = (if node_default_left n then cleft n else cright n)
      \<and> t_nid s = (if node_default_left n then cright n else cleft n)
      \<and> t_idset d = t_idset tsk \<and> unat (t_len d) = unat (t_len tsk) - length qset
      \<and> t_idset s = t_idset tsk + unat (t_len d) \<and> unat (t_len s) = length qset
      \<and> length qset \<le> unat (t_len tsk)
      \<and> task_slice (u_idset u') d = filter (\<lambda>x. x \<notin> set qset) (task_slice ids tsk)
      \<and> task_slice (u_idset u') s = qset
      \<and> sorted_wrt (<) (task_slice (u_idset u') d)
      \<and> sorted_wrt (<) (task_slice (u_idset u') s)
      \<and> set (task_slice (u_idset u') d) \<union> set (task_slice (u_idset u') s)
          = set (task_slice ids tsk)
      \<and> set (task_slice (u_idset u') d) \<inter> set (task_slice (u_idset u') s) = {}
      \<and> length (u_idset u') = length ids
      \<and> take (t_idset tsk) (u_idset u') = take (t_idset tsk) ids
      \<and> drop (t_idset tsk + unat (t_len tsk)) (u_idset u')
          = drop (t_idset tsk + unat (t_len tsk)) ids"
proof -
  let ?base = "t_idset tsk" and ?n = "unat (t_len tsk)"
  let ?slice = "task_slice ids tsk"
  let ?kept = "filter (\<lambda>x. x \<notin> set qset) ?slice"
  have slice: "?slice = take ?n (drop ?base ids)" by (simp add: task_slice_def)
  have lslice: "length ?slice = ?n" using range by (simp add: slice)
  have qs: "set qset = set (map rindex (take (nat num) (drop off entry)))"
    "sorted_wrt (<) qset" "distinct qset"
    using dist by (simp_all add: qset_def strict_sorted_iff)
  have dslice: "distinct ?slice" using srt strict_sorted_iff by blast
  have lk: "length ?kept + length qset = ?n"
    using length_filter_notin [OF dslice qs(3)] sub qs(1) lslice by simp
  then have lq: "length qset \<le> ?n" by simp
  have keep: "merge_keep ?slice qset = ?kept"
    using merge_keep_sorted [OF srt qs(2)] sub qs(1) by simp
  \<comment> \<open>the tree part\<close>
  let ?s = "(node_stat n0)\<lparr>stat_loss_chg := lc, leaf_child_cnt := 0, base_weight := bw\<rparr>"
  let ?n1 = "n0\<lparr>node_stat := ?s\<rparr>"
  let ?t1 = "(u_tree u)\<lparr>nodes := (nodes (u_tree u))[nat (t_nid tsk) := ?n1]\<rparr>"
  let ?nn = "?n1\<lparr>cleft := int (length (nodes ?t1)), cright := int (length (nodes ?t1)) + 1\<rparr>"
  let ?t2 = "?t1\<lparr>nodes := (nodes ?t1)[nat (t_nid tsk) := ?nn]
                 @ [new_node (t_nid tsk), new_node (t_nid tsk)]\<rparr>"
  have n1: "node_at ?t1 (t_nid tsk) = Inr ?n1" by (rule node_at_update_same [OF node])
  have add: "AddChilds ?t1 (t_nid tsk) = Inr ?t2" by (rule AddChilds_node [OF n1])
  have n2: "node_at ?t2 (t_nid tsk) = Inr ?nn" by (rule node_at_update_append_same [OF n1])
  \<comment> \<open>the three loops\<close>
  have cq: "collect_qset entry off num 0 [] = Inr (map rindex (take (nat num) (drop off entry)))"
    using collect_qset_run [OF erange, of 0 "[]"] by simp
  let ?ids1 = "take ?base ids @ ?kept @ drop (?base + length ?kept) ids"
  have sp: "split_idset ids ?base ?n qset 0 0 = Inr ?ids1"
    using split_idset_run [OF range, of 0 0 qset] keep by (simp add: slice)
  let ?dlen = "t_len tsk - word_of_nat (length qset)"
  have udl: "unat ?dlen = ?n - length qset" using lq by (rule unat_sub_of_nat32)
  then have udl': "unat ?dlen = length ?kept" using lk by simp
  have "?n < 2 ^ 32" using unsigned_less [of "t_len tsk", where 'a=nat] by simp
  then have usl: "unat (word_of_nat (length qset) :: 32 word) = length qset"
    using lq by (intro unat_of_nat32) simp
  let ?ids2 = "take ?base ids @ ?kept @ qset @ drop (?base + ?n) ids"
  have l1: "length ?ids1 = length ids" using range lk by simp
  have fb: "fill_back ?ids1 (?base + unat ?dlen) qset (unat (word_of_nat (length qset) :: 32 word)) 0
              = Inr ?ids2"
  proof -
    have a: "?base + length ?kept + length qset \<le> length ?ids1" using l1 lk range by simp
    have t: "take (?base + length ?kept) ?ids1 = take ?base ids @ ?kept" using range by simp
    have d: "drop (?base + length ?kept + length qset) ?ids1 = drop (?base + ?n) ids"
      using range lk by (simp add: add.commute add.left_commute)
    show ?thesis
      unfolding udl' usl by (simp only: fill_back_all [OF a] t d append_assoc)
  qed
  let ?d = "\<lparr>t_nid = (if node_default_left ?nn then cleft ?nn else cright ?nn),
             t_idset = ?base, t_len = ?dlen, t_parent_base_weight = base_weight ?s\<rparr>"
  let ?sp = "\<lparr>t_nid = (if node_default_left ?nn then cright ?nn else cleft ?nn),
             t_idset = ?base + unat ?dlen, t_len = word_of_nat (length qset),
             t_parent_base_weight = base_weight ?s\<rparr>"
  let ?u' = "add_task (add_task (u\<lparr>u_tree := ?t2, u_idset := ?ids2\<rparr>) ?d) ?sp"
  have ms: "make_split u tsk entry off num lc bw = Inr ?u'"
    unfolding make_split_def
    by (simp only: node sum.case Let_def add cq n2 qset_def [symmetric] ids_def [symmetric] sp
        Task.select_convs fb)
  have sd: "task_slice (u_idset ?u') ?d = ?kept"
    using range by (simp add: task_slice_def add_task_def udl')
  have ss: "task_slice (u_idset ?u') ?sp = qset"
    using range by (simp add: task_slice_def add_task_def udl' usl)
  have sk: "sorted_wrt (<) ?kept" using srt by (rule sorted_wrt_filter)
  have un: "set ?kept \<union> set qset = set ?slice" using sub qs(1) by auto
  show ?thesis
    apply (rule exI [of _ ?u'], rule exI [of _ ?d], rule exI [of _ ?sp], rule exI [of _ ?nn])
    apply (intro conjI)
    subgoal by (rule ms)
    subgoal by (simp add: add_task_def)
    subgoal using n2 by (simp add: add_task_def)
    subgoal by simp
    subgoal by simp
    subgoal by simp
    subgoal using udl by simp
    subgoal by simp
    subgoal using usl by simp
    subgoal by (rule lq)
    subgoal by (rule sd)
    subgoal by (rule ss)
    subgoal unfolding sd by (rule sk)
    subgoal unfolding ss by (rule qs(2))
    subgoal unfolding sd ss by (rule un)
    subgoal unfolding sd ss by auto
    subgoal using range lk by (simp add: add_task_def)
    subgoal using range by (simp add: add_task_def)
    subgoal using range lk by (simp add: add_task_def)
    done
qed


text \<open>
  C3 as stated fails when a row index occurs twice in the entry slice (a row that lists
  the feature twice): with the ids 1, 3, 5 and the row indices 3, 3 the buffer becomes
  1, 3, 3 and row 5 is in neither child.
\<close>

theorem make_split_duplicate_rows_counterexample:
  "sorted_wrt (<) (task_slice (u_idset ex_upd) ex_task)
   \<and> set (map rindex (take (nat 2) (drop 0 ex_dup_entry))) \<subseteq> set (task_slice (u_idset ex_upd) ex_task)
   \<and> task_slice (u_idset ex_upd) ex_task = [1, 3, 5]
   \<and> map_sum id u_idset (make_split ex_upd ex_task ex_dup_entry 0 2 1 0) = Inr [1, 3, 3]
   \<and> map_sum id u_task_stack (make_split ex_upd ex_task ex_dup_entry 0 2 1 0)
       = Inr [\<lparr>t_nid = 2, t_idset = 0, t_len = 1, t_parent_base_weight = 0\<rparr>,
              \<lparr>t_nid = 1, t_idset = 1, t_len = 2, t_parent_base_weight = 0\<rparr>]
   \<and> 5 \<in> set (task_slice (u_idset ex_upd) ex_task)
   \<and> 5 \<notin> set (task_slice [1, 3, 3] \<lparr>t_nid = 2, t_idset = 0, t_len = 1, t_parent_base_weight = 0\<rparr>)
       \<union> set (task_slice [1, 3, 3] \<lparr>t_nid = 1, t_idset = 1, t_len = 2, t_parent_base_weight = 0\<rparr>)"
proof -
  have cq: "collect_qset ex_dup_entry 0 2 0 [] = Inr [3, 3]"
    using collect_qset_run [of 0 2 ex_dup_entry 0 "[]"] by (simp add: ex_dup_entry_def)
  have sp: "split_idset [1, 3, 5] 0 3 [3, 3] 0 0 = Inr [1, 5, 5]"
    using split_idset_run [of 0 3 "[1, 3, 5]" 0 0 "[3, 3]"] by simp
  have fb: "fill_back [1, 5, 5] (Suc 0) [3, 3] 2 0 = Inr [1, 3, 3]"
    using fill_back_run [of 1 2 "[1, 5, 5]" "[3, 3]" 0] by simp
  have ms: "make_split ex_upd ex_task ex_dup_entry 0 2 1 0
     = Inr (ex_upd\<lparr>u_tree := ex_tree\<lparr>nodes := [(new_node (-1))\<lparr>cleft := 1, cright := 2,
                node_stat := \<lparr>stat_loss_chg = 1, base_weight = 0, leaf_child_cnt = 0\<rparr>\<rparr>,
                new_node 0, new_node 0]\<rparr>,
             u_idset := [1, 3, 3],
             u_task_stack := [\<lparr>t_nid = 2, t_idset = 0, t_len = 1, t_parent_base_weight = 0\<rparr>,
              \<lparr>t_nid = 1, t_idset = 1, t_len = 2, t_parent_base_weight = 0\<rparr>]\<rparr>)"
    by (simp add: make_split_def ex_upd_def ex_task_def ex_tree_def node_at_def AddChilds_def
        new_node_def cq sp fb add_task_def Let_def)
  show ?thesis
    unfolding ms
    by (simp add: ex_upd_def ex_task_def task_slice_def ex_dup_entry_def word_less_nat_alt)
qed

theorem make_split_partition_witness:
  "\<exists>u' d s n. make_split ex_upd ex_task ex_entry 0 2 1 0 = Inr u'
      \<and> u_task_stack u' = [d, s]
      \<and> node_at (u_tree u') 0 = Inr n
      \<and> t_nid d = cright n \<and> t_nid s = cleft n
      \<and> t_idset d = 0 \<and> unat (t_len d) = 1 \<and> t_idset s = 1 \<and> unat (t_len s) = 2
      \<and> task_slice (u_idset u') d = [3] \<and> task_slice (u_idset u') s = [1, 5]"
proof -
  have q: "sort (map rindex (take (nat 2) (drop 0 ex_entry))) = [1, 5]"
    by (simp add: ex_entry_def word_le_nat_alt)
  have sl: "task_slice (u_idset ex_upd) ex_task = [1, 3, 5]"
    by (simp add: task_slice_def ex_upd_def ex_task_def)
  have h1: "node_at (u_tree ex_upd) (t_nid ex_task) = Inr (new_node (-1))"
    by (simp add: node_at_def ex_upd_def ex_task_def ex_tree_def)
  have h2: "t_idset ex_task + unat (t_len ex_task) \<le> length (u_idset ex_upd)"
    by (simp add: ex_upd_def ex_task_def)
  have h3: "0 + nat 2 \<le> length ex_entry" by (simp add: ex_entry_def)
  have h4: "sorted_wrt (<) (task_slice (u_idset ex_upd) ex_task)"
    unfolding sl by (simp add: word_less_nat_alt)
  have h5: "distinct (map rindex (take (nat 2) (drop 0 ex_entry)))" by (simp add: ex_entry_def)
  have h6: "set (map rindex (take (nat 2) (drop 0 ex_entry)))
              \<subseteq> set (task_slice (u_idset ex_upd) ex_task)"
    unfolding sl by (simp add: ex_entry_def)
  from make_split_partition [OF h1 h2 h3 h4 h5 h6, of 1 0]
  obtain u' d s n where r: "make_split ex_upd ex_task ex_entry 0 2 1 0 = Inr u'"
      "u_task_stack u' = u_task_stack ex_upd @ [d, s]"
      "node_at (u_tree u') (t_nid ex_task) = Inr n"
      "t_nid d = (if node_default_left n then cleft n else cright n)"
      "t_nid s = (if node_default_left n then cright n else cleft n)"
      "t_idset d = t_idset ex_task" "unat (t_len d) = unat (t_len ex_task) - length [1, 5 :: 32 word]"
      "t_idset s = t_idset ex_task + unat (t_len d)" "unat (t_len s) = length [1, 5 :: 32 word]"
      "task_slice (u_idset u') d = filter (\<lambda>x. x \<notin> set [1, 5]) [1, 3, 5]"
      "task_slice (u_idset u') s = [1, 5]"
    unfolding q sl by auto
  have dl: "\<not> node_default_left n"
    using r(1,3) 
    by (auto simp: make_split_def ex_upd_def ex_task_def ex_tree_def node_at_def AddChilds_def
        new_node_def add_task_def Let_def split: sum.splits)
  show ?thesis
    using r dl by (auto simp: ex_upd_def ex_task_def)
qed

subsection \<open>try\_prune\_leaf\<close>

lemma node_at_Inr_iff:
  "node_at t nid = Inr n \<longleftrightarrow> 0 \<le> nid \<and> nat nid < length (nodes t) \<and> n = nodes t ! nat nid"
  by (auto simp: node_at_def)

lemma node_at_Inl_iff:
  "node_at t nid = Inl err \<longleftrightarrow> \<not> (0 \<le> nid \<and> nat nid < length (nodes t)) \<and> err = OutOfBounds"
  by (auto simp: node_at_def)

lemma same_parents_length: "same_parents t t' \<Longrightarrow> length (nodes t') = length (nodes t)"
  unfolding same_parents_def by (metis length_map)

lemma same_parents_nth:
  "same_parents t t' \<Longrightarrow> i < length (nodes t) \<Longrightarrow> parent (nodes t' ! i) = parent (nodes t ! i)"
  unfolding same_parents_def by (metis length_map nth_map)

lemma same_parents_update:
  assumes "same_parents t t'" "i < length (nodes t')" "parent x = parent (nodes t' ! i)"
  shows "same_parents t (t'\<lparr>nodes := (nodes t')[i := x]\<rparr>)"
proof -
  have "map parent ((nodes t')[i := x]) = (map parent (nodes t'))[i := parent (nodes t' ! i)]"
    using assms(3) by (simp add: map_update)
  also have "\<dots> = map parent (nodes t')"
    using assms(2) by (metis list_update_id nth_map)
  finally show ?thesis using assms(1) by (simp add: same_parents_def)
qed

lemma ChangeToLeaf_updated:
  "0 \<le> pid \<Longrightarrow> nat pid < length (nodes t) \<Longrightarrow>
   ChangeToLeaf (t\<lparr>nodes := (nodes t)[nat pid := x]\<rparr>) pid v
     = Inr (t\<lparr>nodes := (nodes t)[nat pid := set_leaf x v]\<rparr>)"
  by (simp add: ChangeToLeaf_def node_at_def set_node_def)

lemma try_prune_leaf_terminates_gen:
  "up_chain t nid \<Longrightarrow> same_parents t (u_tree u) \<Longrightarrow> \<exists>r. try_prune_leaf u nid depth = Some r"
proof (induction arbitrary: u depth rule: up_chain.induct)
  case (up_out t nid err)
  then have "\<not> (0 \<le> nid \<and> nat nid < length (nodes (u_tree u)))"
    using same_parents_length [OF up_out(2)] by (simp add: node_at_Inl_iff)
  then have "node_at (u_tree u) nid = Inl OutOfBounds" by (simp add: node_at_def)
  then show ?case by (subst try_prune_leaf.simps) simp
next
  case (up_root t nid n)
  then have r: "0 \<le> nid" "nat nid < length (nodes t)" "n = nodes t ! nat nid"
    by (simp_all add: node_at_Inr_iff)
  let ?n' = "nodes (u_tree u) ! nat nid"
  have "node_at (u_tree u) nid = Inr ?n'"
    using r same_parents_length [OF up_root(3)] by (simp add: node_at_def)
  moreover have "is_root ?n'"
    using same_parents_nth [OF up_root(3) r(2)] up_root(2) r(3) by (simp add: is_root_def)
  ultimately show ?case by (subst try_prune_leaf.simps) simp
next
  case (up_step t nid n)
  then have r: "0 \<le> nid" "nat nid < length (nodes t)" "n = nodes t ! nat nid"
    by (simp_all add: node_at_Inr_iff)
  let ?t = "u_tree u"
  let ?n' = "nodes ?t ! nat nid"
  have len: "length (nodes ?t) = length (nodes t)" by (rule same_parents_length [OF up_step.prems])
  have n': "node_at ?t nid = Inr ?n'" using r len by (simp add: node_at_def)
  have pn: "parent ?n' = parent n"
    using same_parents_nth [OF up_step.prems r(2)] r(3) by simp
  then have nr: "\<not> is_root ?n'" using up_step(2) by (simp add: is_root_def)
  let ?pid = "parent n"
  show ?case
  proof (cases "node_at ?t ?pid")
    case (Inl err)
    then show ?thesis
      by (subst try_prune_leaf.simps) (simp add: n' nr pn Let_def)
  next
    case (Inr p)
    then have pr: "0 \<le> ?pid" "nat ?pid < length (nodes ?t)" "p = nodes ?t ! nat ?pid"
      by (simp_all add: node_at_Inr_iff)
    let ?s = "(node_stat p)\<lparr>leaf_child_cnt := leaf_child_cnt (node_stat p) + 1\<rparr>"
    let ?p1 = "p\<lparr>node_stat := ?s\<rparr>"
    let ?v = "learning_rate (u_param u) * base_weight ?s"
    let ?u2 = "u\<lparr>u_tree := ?t\<lparr>nodes := (nodes ?t)[nat ?pid := set_leaf ?p1 ?v]\<rparr>,
                  u_num_pruned := u_num_pruned u + 2\<rparr>"
    have ctl: "ChangeToLeaf (?t\<lparr>nodes := (nodes ?t)[nat ?pid := ?p1]\<rparr>) ?pid ?v
                = Inr (?t\<lparr>nodes := (nodes ?t)[nat ?pid := set_leaf ?p1 ?v]\<rparr>)"
      by (rule ChangeToLeaf_updated [OF pr(1,2)])
    have "same_parents t (u_tree ?u2)"
      using same_parents_update [OF up_step.prems pr(2), of "set_leaf ?p1 ?v"] pr(3)
      by (simp add: set_leaf_def)
    then obtain r where rec: "try_prune_leaf ?u2 ?pid (depth - 1) = Some r"
      using up_step.IH by blast
    show ?thesis
      by (subst try_prune_leaf.simps) (simp add: n' nr pn Inr Let_def ctl [simplified] rec [simplified])
  qed
qed


text \<open>
  C5. \<open>try_prune_leaf nid depth\<close> on a node whose parent links end. The call returns. At a
  root the state is unchanged. Otherwise the \<open>leaf_child_cnt\<close> of the parent is incremented;
  if it is then at least 2 and \<open>need_prune\<close> holds for the parent's \<open>loss_chg\<close> at
  \<open>depth - 1\<close>, the parent becomes a leaf of value
  \<open>learning_rate * base_weight\<close> (of the parent's stat), the counter of pruned nodes grows
  by exactly 2 and the call continues as \<open>try_prune_leaf\<close> on the parent at \<open>depth - 1\<close>;
  if not, the call ends with only the count changed.
\<close>

theorem try_prune_leaf_correct:
  assumes "up_chain (u_tree u) nid"
  shows "(\<exists>r. try_prune_leaf u nid depth = Some r)
    \<and> (\<forall>n. node_at (u_tree u) nid = Inr n \<longrightarrow> is_root n \<longrightarrow>
          try_prune_leaf u nid depth = Some (Inr u))
    \<and> (\<forall>n pn. node_at (u_tree u) nid = Inr n \<longrightarrow> \<not> is_root n \<longrightarrow>
          node_at (u_tree u) (parent n) = Inr pn \<longrightarrow>
          (let pn1 = pn\<lparr>node_stat := (node_stat pn)
                        \<lparr>leaf_child_cnt := leaf_child_cnt (node_stat pn) + 1\<rparr>\<rparr>;
               leaf = set_leaf pn1 (learning_rate (u_param u) * base_weight (node_stat pn));
               u1 = u\<lparr>u_tree := (u_tree u)\<lparr>nodes := (nodes (u_tree u))[nat (parent n) := pn1]\<rparr>\<rparr>;
               u2 = u\<lparr>u_tree := (u_tree u)\<lparr>nodes := (nodes (u_tree u))[nat (parent n) := leaf]\<rparr>,
                      u_num_pruned := u_num_pruned u + 2\<rparr>
           in if leaf_child_cnt (node_stat pn) + 1 \<ge> 2
                  \<and> need_prune (u_param u) (stat_loss_chg (node_stat pn)) (depth - 1)
              then try_prune_leaf u nid depth = try_prune_leaf u2 (parent n) (depth - 1)
                   \<and> node_at (u_tree u2) (parent n) = Inr leaf \<and> is_leaf leaf
                   \<and> leaf_value leaf = learning_rate (u_param u) * base_weight (node_stat pn)
              else try_prune_leaf u nid depth = Some (Inr u1)))"
proof (intro conjI allI impI)
  show "\<exists>r. try_prune_leaf u nid depth = Some r"
    using try_prune_leaf_terminates_gen [OF assms, of u depth] by (simp add: same_parents_def)
next
  fix n assume "node_at (u_tree u) nid = Inr n" "is_root n"
  then show "try_prune_leaf u nid depth = Some (Inr u)"
    by (subst try_prune_leaf.simps) simp
next
  fix n pn
  assume n: "node_at (u_tree u) nid = Inr n" "\<not> is_root n"
    and pn: "node_at (u_tree u) (parent n) = Inr pn"
  have pr: "0 \<le> parent n" "nat (parent n) < length (nodes (u_tree u))"
    using pn by (simp_all add: node_at_Inr_iff)
  note ctl = ChangeToLeaf_updated [OF pr, of "pn\<lparr>node_stat := (node_stat pn)
                        \<lparr>leaf_child_cnt := leaf_child_cnt (node_stat pn) + 1\<rparr>\<rparr>"
                "learning_rate (u_param u) * base_weight (node_stat pn)"]
  show "let pn1 = pn\<lparr>node_stat := (node_stat pn)
                        \<lparr>leaf_child_cnt := leaf_child_cnt (node_stat pn) + 1\<rparr>\<rparr>;
               leaf = set_leaf pn1 (learning_rate (u_param u) * base_weight (node_stat pn));
               u1 = u\<lparr>u_tree := (u_tree u)\<lparr>nodes := (nodes (u_tree u))[nat (parent n) := pn1]\<rparr>\<rparr>;
               u2 = u\<lparr>u_tree := (u_tree u)\<lparr>nodes := (nodes (u_tree u))[nat (parent n) := leaf]\<rparr>,
                      u_num_pruned := u_num_pruned u + 2\<rparr>
           in if leaf_child_cnt (node_stat pn) + 1 \<ge> 2
                  \<and> need_prune (u_param u) (stat_loss_chg (node_stat pn)) (depth - 1)
              then try_prune_leaf u nid depth = try_prune_leaf u2 (parent n) (depth - 1)
                   \<and> node_at (u_tree u2) (parent n) = Inr leaf \<and> is_leaf leaf
                   \<and> leaf_value leaf = learning_rate (u_param u) * base_weight (node_stat pn)
              else try_prune_leaf u nid depth = Some (Inr u1)"
  proof -
    have eq: "try_prune_leaf u nid depth =
        (if leaf_child_cnt (node_stat pn) + 1 \<ge> 2
              \<and> need_prune (u_param u) (stat_loss_chg (node_stat pn)) (depth - 1)
         then try_prune_leaf
                (u\<lparr>u_tree := (u_tree u)\<lparr>nodes := (nodes (u_tree u))[nat (parent n) :=
                      set_leaf (pn\<lparr>node_stat := (node_stat pn)
                        \<lparr>leaf_child_cnt := leaf_child_cnt (node_stat pn) + 1\<rparr>\<rparr>)
                        (learning_rate (u_param u) * base_weight (node_stat pn))]\<rparr>,
                   u_num_pruned := u_num_pruned u + 2\<rparr>) (parent n) (depth - 1)
         else Some (Inr (u\<lparr>u_tree := (u_tree u)\<lparr>nodes := (nodes (u_tree u))[nat (parent n) :=
                      pn\<lparr>node_stat := (node_stat pn)
                        \<lparr>leaf_child_cnt := leaf_child_cnt (node_stat pn) + 1\<rparr>\<rparr>]\<rparr>\<rparr>)))"
      by (subst try_prune_leaf.simps) (simp add: n pn Let_def ctl [simplified])
    show ?thesis
      unfolding Let_def eq using pr
      by (simp add: node_at_def set_leaf_def is_leaf_def)
  qed
qed

theorem try_prune_leaf_correct_witness:
  "up_chain (u_tree ex_prune_upd) 2
   \<and> (\<exists>r. try_prune_leaf ex_prune_upd 2 1 = Some r)
   \<and> try_prune_leaf ex_prune_upd 2 1
       = Some (Inr (ex_prune_upd\<lparr>u_tree := ex_split_tree\<lparr>nodes :=
            [(new_node (-1))\<lparr>leaf_value := 3,
                node_stat := \<lparr>stat_loss_chg = 0.5, base_weight = 3, leaf_child_cnt = 2\<rparr>\<rparr>,
             new_node 0, new_node 0]\<rparr>, u_num_pruned := 2\<rparr>))"
proof -
  have n0: "node_at (u_tree ex_prune_upd) 0 = Inr ((new_node (-1))\<lparr>cleft := 1, cright := 2,
           node_stat := \<lparr>stat_loss_chg = 0.5, base_weight = 3, leaf_child_cnt = 1\<rparr>\<rparr>)"
    by (simp add: ex_prune_upd_def ex_split_tree_def node_at_def)
  have n2: "node_at (u_tree ex_prune_upd) 2 = Inr (new_node 0)"
    by (simp add: ex_prune_upd_def ex_split_tree_def node_at_def)
  have c0: "up_chain (u_tree ex_prune_upd) 0"
    by (rule up_root [OF n0]) (simp add: is_root_def new_node_def)
  have c2: "up_chain (u_tree ex_prune_upd) 2"
    by (rule up_step [OF n2]) (simp_all add: is_root_def new_node_def c0)
  have ev: "try_prune_leaf ex_prune_upd 2 1
       = Some (Inr (ex_prune_upd\<lparr>u_tree := ex_split_tree\<lparr>nodes :=
            [(new_node (-1))\<lparr>leaf_value := 3,
                node_stat := \<lparr>stat_loss_chg = 0.5, base_weight = 3, leaf_child_cnt = 2\<rparr>\<rparr>,
             new_node 0, new_node 0]\<rparr>, u_num_pruned := 2\<rparr>))"
    apply (subst try_prune_leaf.simps)
    apply (subst try_prune_leaf.simps)
    apply (simp add: ex_prune_upd_def ex_upd_def ex_split_tree_def ex_param_def node_at_def
        new_node_def is_root_def ChangeToLeaf_def set_node_def set_leaf_def Let_def)
    done
  show ?thesis
    using try_prune_leaf_correct [OF c2, of 1] c2 ev by simp
qed

subsection \<open>Depth and ancestors\<close>















subsection \<open>expand\<close>

















subsection \<open>init\_tasks\<close>

text \<open>
  C1, evaluated. Single-root mode, \<open>subsample = 0.5\<close>, two rows with \<open>hess = [-1, 1]\<close>, and a
  sampler that returns 1 for both rows: the root task owns the rows 0 and 1, although
  \<open>hess[0] < 0\<close>. With \<open>subsample = 1\<close> the other branch leaves row 0 out.
\<close>

theorem init_tasks_sampled_keeps_ignored_row:
  "u_hess ex_sub_upd ! 0 < 0
   \<and> length (u_group_id ex_sub_upd) = 0
   \<and> subsample (u_param ex_sub_upd) < 1 - 1 / 1000000
   \<and> map_sum id u_idset (init_tasks ex_take_all ex_sub_upd 2) = Inr [0, 1]
   \<and> map_sum id u_task_stack (init_tasks ex_take_all ex_sub_upd 2)
       = Inr [\<lparr>t_nid = 0, t_idset = 0, t_len = 2, t_parent_base_weight = 0\<rparr>]
   \<and> map_sum id u_idset
        (init_tasks ex_take_all (ex_sub_upd\<lparr>u_param := ex_param\<rparr>) 2) = Inr [1]"
  by (simp add: init_tasks_def ex_sub_upd_def ex_param_def ex_take_all_def init_sampled.simps
      init_all.simps get_def add_task_def)

subsection \<open>Prediction\<close>

lemma get_next_eq:
  "node_at t pid = Inr n \<Longrightarrow>
   get_next t pid fv unk =
     Inr (if unk then (if node_default_left n then cleft n else cright n)
          else (if fv < split_cond n then cleft n else cright n))"
  by (simp add: get_next_def Let_def)


lemma reaches_leaf_walk_aux:
  "leaf_walk t feat funknown pid = Some r \<Longrightarrow>
     \<forall>l. r = Inr l \<longrightarrow> reaches_leaf t feat funknown pid l"
proof (induction rule: leaf_walk.raw_induct [rotated 1, consumes 1])
  case (1 lw t feat funknown pid r)
  show ?case
  proof (cases "node_at t pid")
    case (Inl a)
    then show ?thesis using 1(2) by auto
  next
    case (Inr n)
    show ?thesis
    proof (cases "is_leaf n")
      case True
      then show ?thesis using 1(2) Inr rl_leaf [OF Inr True] by auto
    next
      case False
      let ?si = "unat (node_split_index n)"
      let ?nxt = "if funknown ! ?si
               then (if node_default_left n then cleft n else cright n)
               else (if feat ! ?si < split_cond n then cleft n else cright n)"
      show ?thesis
      proof (intro allI impI)
        fix l assume r: "r = Inr l"
        have in1: "?si < length feat"
          using 1(2) Inr False r by (auto simp: get_def Let_def split: if_splits)
        have in2: "?si < length funknown"
          using 1(2) Inr False r in1 by (auto simp: get_def Let_def split: if_splits)
        have "lw t feat funknown ?nxt = Some r"
          using 1(2) Inr False in1 in2 by (simp add: get_def Let_def get_next_eq [OF Inr])
        from 1(1) [OF this] r have "reaches_leaf t feat funknown ?nxt l" by blast
        then show "reaches_leaf t feat funknown pid l"
          by (rule rl_step [OF Inr False in1 in2])
      qed
    qed
  qed
qed





lemma init_tmpfeat_props:
  assumes "init_tmpfeat tr = Inr tr1" "\<forall>b \<in> set (tmp_funknown tr). b"
  shows "(\<forall>b \<in> set (tmp_funknown tr1). b) \<and> tr_tree tr1 = tr_tree tr
       \<and> (\<forall>i. i < length (tmp_feat tr) \<longrightarrow> i < length (tmp_feat tr1) \<longrightarrow>
              tmp_feat tr1 ! i = tmp_feat tr ! i)"
proof (cases "int (length (tmp_feat tr)) \<noteq> num_feature (tr_tree tr)")
  case False
  then have "tr1 = tr" using assms(1) by (simp add: init_tmpfeat_def split: if_splits)
  then show ?thesis using assms(2) by simp
next
  case True
  let ?n = "nat (num_feature (tr_tree tr))"
  have tr1: "tr1 = tr\<lparr>tmp_feat := take ?n (tmp_feat tr) @ replicate (?n - length (tmp_feat tr)) 0,
                tmp_funknown := replicate ?n True\<rparr>"
    using assms(1) True by (simp add: init_tmpfeat_def Let_def split: if_splits)
  have "\<forall>i. i < length (tmp_feat tr) \<longrightarrow> i < length (tmp_feat tr1) \<longrightarrow>
              tmp_feat tr1 ! i = tmp_feat tr ! i"
  proof (intro allI impI)
    fix i assume i: "i < length (tmp_feat tr)" "i < length (tmp_feat tr1)"
    then have "i < ?n" unfolding tr1 by simp
    then show "tmp_feat tr1 ! i = tmp_feat tr ! i"
      unfolding tr1 using i(1) by (simp add: nth_append)
  qed
  then show ?thesis unfolding tr1 by simp
qed

lemma set_known_props:
  "set_known feat tr1 = Inr tr2 \<Longrightarrow>
     tr_tree tr2 = tr_tree tr1
     \<and> length (tmp_funknown tr2) = length (tmp_funknown tr1)
     \<and> length (tmp_feat tr2) = length (tmp_feat tr1)
     \<and> (\<forall>i. i \<notin> (\<lambda>fv. unat (fst fv)) ` set feat \<longrightarrow>
            tmp_funknown tr2 ! i = tmp_funknown tr1 ! i \<and> tmp_feat tr2 ! i = tmp_feat tr1 ! i)"
proof (induction feat arbitrary: tr1)
  case Nil
  then show ?case by simp
next
  case (Cons fv rest)
  let ?k = "unat (fst fv)"
  have k1: "?k < length (tmp_funknown tr1)"
    using Cons.prems by (simp split: if_splits)
  have k2: "?k < length (tmp_feat tr1)"
    using Cons.prems k1 by (simp add: put_def split: if_splits)
  let ?tr = "tr1\<lparr>tmp_funknown := (tmp_funknown tr1)[?k := False],
                  tmp_feat := (tmp_feat tr1)[?k := snd fv]\<rparr>"
  have rec: "set_known rest ?tr = Inr tr2"
    using Cons.prems k1 k2 by (simp add: put_def)
  from Cons.IH [OF rec] have IH: "tr_tree tr2 = tr_tree tr1"
    "length (tmp_funknown tr2) = length (tmp_funknown tr1)"
    "length (tmp_feat tr2) = length (tmp_feat tr1)"
    "\<And>i. i \<notin> (\<lambda>fv. unat (fst fv)) ` set rest \<Longrightarrow>
        tmp_funknown tr2 ! i = (tmp_funknown tr1)[?k := False] ! i
        \<and> tmp_feat tr2 ! i = (tmp_feat tr1)[?k := snd fv] ! i"
    by simp_all
  have "\<forall>i. i \<notin> (\<lambda>fv. unat (fst fv)) ` set (fv # rest) \<longrightarrow>
            tmp_funknown tr2 ! i = tmp_funknown tr1 ! i \<and> tmp_feat tr2 ! i = tmp_feat tr1 ! i"
  proof (intro allI impI)
    fix i assume "i \<notin> (\<lambda>fv. unat (fst fv)) ` set (fv # rest)"
    then have i: "i \<noteq> ?k" "i \<notin> (\<lambda>fv. unat (fst fv)) ` set rest" by simp_all
    show "tmp_funknown tr2 ! i = tmp_funknown tr1 ! i \<and> tmp_feat tr2 ! i = tmp_feat tr1 ! i"
      using IH(4) [OF i(2)] i(1) by simp
  qed
  then show ?case using IH(1-3) by simp
qed

lemma set_back_props:
  "set_back feat tr2 = Inr tr3 \<Longrightarrow>
     tr_tree tr3 = tr_tree tr2 \<and> tmp_feat tr3 = tmp_feat tr2
     \<and> length (tmp_funknown tr3) = length (tmp_funknown tr2)
     \<and> (\<forall>i < length (tmp_funknown tr2).
            tmp_funknown tr3 ! i = (i \<in> (\<lambda>fv. unat (fst fv)) ` set feat \<or> tmp_funknown tr2 ! i))"
proof (induction feat arbitrary: tr2)
  case Nil
  then show ?case by simp
next
  case (Cons fv rest)
  let ?k = "unat (fst fv)"
  from Cons.prems have k: "?k < length (tmp_funknown tr2)"
    by (auto simp: put_def split: if_splits sum.splits)
  let ?tr = "tr2\<lparr>tmp_funknown := (tmp_funknown tr2)[?k := True]\<rparr>"
  have rec: "set_back rest ?tr = Inr tr3"
    using Cons.prems k by (simp add: put_def)
  from Cons.IH [OF rec] have IH: "tr_tree tr3 = tr_tree tr2" "tmp_feat tr3 = tmp_feat tr2"
    "length (tmp_funknown tr3) = length (tmp_funknown tr2)"
    "\<And>i. i < length (tmp_funknown tr2) \<Longrightarrow>
       tmp_funknown tr3 ! i = (i \<in> (\<lambda>fv. unat (fst fv)) ` set rest
                                \<or> (tmp_funknown tr2)[?k := True] ! i)"
    by simp_all
  have "\<forall>i < length (tmp_funknown tr2).
            tmp_funknown tr3 ! i
              = (i \<in> (\<lambda>fv. unat (fst fv)) ` set (fv # rest) \<or> tmp_funknown tr2 ! i)"
  proof (intro allI impI)
    fix i assume i: "i < length (tmp_funknown tr2)"
    show "tmp_funknown tr3 ! i
              = (i \<in> (\<lambda>fv. unat (fst fv)) ` set (fv # rest) \<or> tmp_funknown tr2 ! i)"
    proof (cases "i = ?k")
      case True
      then show ?thesis using IH(4) [OF i] i by simp
    next
      case False
      then show ?thesis using IH(4) [OF i] i by simp
    qed
  qed
  then show ?case using IH(1-3) by simp
qed

text \<open>
  C9. If every entry of the mask \<open>tmp_funknown\<close> is true when the sparse \<open>Predict\<close> is
  called and the call returns a value, then every entry of the mask is true again after
  the call, the tree is the same, and the dense scratch \<open>tmp_feat\<close> holds its old values at
  the places that are not feature indices of the row.
\<close>

theorem Predict_sparse_frame:
  assumes all: "\<forall>b \<in> set (tmp_funknown tr). b"
    and ret: "Predict_sparse tr feat gid = Some (Inr (v, tr'))"
  shows "(\<forall>b \<in> set (tmp_funknown tr'). b)
       \<and> tr_tree tr' = tr_tree tr
       \<and> (\<forall>i. i \<notin> (\<lambda>fv. unat (fst fv)) ` set feat \<longrightarrow> i < length (tmp_feat tr) \<longrightarrow>
              i < length (tmp_feat tr') \<longrightarrow> tmp_feat tr' ! i = tmp_feat tr ! i)"
proof -
  obtain tr1 where i: "init_tmpfeat tr = Inr tr1"
    using ret by (cases "init_tmpfeat tr") (simp_all add: Predict_sparse_def)
  obtain tr2 where k: "set_known feat tr1 = Inr tr2"
    using ret by (cases "set_known feat tr1") (simp_all add: Predict_sparse_def i)
  have ret2: "Option.bind (GetLeafIndex (tr_tree tr2) (tmp_feat tr2) (tmp_funknown tr2) gid)
                 (\<lambda>r. case r of Inl err \<Rightarrow> Some (Inl err)
                  | Inr pid \<Rightarrow>
                      (case set_back feat tr2 of Inl err \<Rightarrow> Some (Inl err)
                       | Inr tr3 \<Rightarrow>
                           (case node_at (tr_tree tr3) pid of Inl err \<Rightarrow> Some (Inl err)
                            | Inr n \<Rightarrow> Some (Inr (leaf_value n, tr3))))) = Some (Inr (v, tr'))"
    using ret by (simp add: Predict_sparse_def i k)
  then obtain r where g: "GetLeafIndex (tr_tree tr2) (tmp_feat tr2) (tmp_funknown tr2) gid = Some r"
    by (cases "GetLeafIndex (tr_tree tr2) (tmp_feat tr2) (tmp_funknown tr2) gid") simp_all
  obtain pid where r: "r = Inr pid"
    using ret2 by (cases r) (simp_all add: g)
  have b: "set_back feat tr2 = Inr tr'"
  proof (cases "set_back feat tr2")
    case (Inl a)
    then show ?thesis using ret2 by (simp add: g r)
  next
    case (Inr tr3)
    then show ?thesis using ret2
      by (cases "node_at (tr_tree tr3) pid") (simp_all add: g r)
  qed
  note p1 = init_tmpfeat_props [OF i all]
  note p2 = set_known_props [OF k]
  note p3 = set_back_props [OF b]
  have "\<forall>b \<in> set (tmp_funknown tr'). b"
  proof
    fix x assume "x \<in> set (tmp_funknown tr')"
    then obtain j where j: "j < length (tmp_funknown tr')" "x = tmp_funknown tr' ! j"
      by (auto simp: in_set_conv_nth)
    then have j2: "j < length (tmp_funknown tr2)" "j < length (tmp_funknown tr1)"
      using p2 p3 by simp_all
    show x
    proof (cases "j \<in> (\<lambda>fv. unat (fst fv)) ` set feat")
      case True
      then show ?thesis using p3 j j2 by simp
    next
      case False
      then have "tmp_funknown tr2 ! j = tmp_funknown tr1 ! j" using p2 by blast
      moreover have "tmp_funknown tr1 ! j" using p1 j2(2) nth_mem by blast
      ultimately show ?thesis using p3 j j2 by simp
    qed
  qed
  moreover have "tr_tree tr' = tr_tree tr" using p1 p2 p3 by simp
  moreover have "\<forall>i. i \<notin> (\<lambda>fv. unat (fst fv)) ` set feat \<longrightarrow> i < length (tmp_feat tr) \<longrightarrow>
              i < length (tmp_feat tr') \<longrightarrow> tmp_feat tr' ! i = tmp_feat tr ! i"
  proof (intro allI impI)
    fix i assume a: "i \<notin> (\<lambda>fv. unat (fst fv)) ` set feat" "i < length (tmp_feat tr)"
      "i < length (tmp_feat tr')"
    have "tmp_feat tr' ! i = tmp_feat tr2 ! i" using p3 by simp
    also have "\<dots> = tmp_feat tr1 ! i" using p2 a(1) by blast
    also have "\<dots> = tmp_feat tr ! i" using p1 a(2,3) p2 p3 by simp
    finally show "tmp_feat tr' ! i = tmp_feat tr ! i" .
  qed
  ultimately show ?thesis by blast
qed


theorem Predict_sparse_frame_witness:
  "tmp_funknown ex_trainer = [True, True]
   \<and> Predict_sparse ex_trainer [(1, 3)] 0
        = Some (Inr (20, ex_trainer\<lparr>tmp_feat := [7, 3], tmp_funknown := [True, True]\<rparr>))
   \<and> tr_tree (ex_trainer\<lparr>tmp_feat := [7, 3], tmp_funknown := [True, True]\<rparr>) = tr_tree ex_trainer
   \<and> tmp_feat (ex_trainer\<lparr>tmp_feat := [7, 3], tmp_funknown := [True, True]\<rparr>) ! 0
        = tmp_feat ex_trainer ! 0"
proof -
  let ?T = "ex_trainer\<lparr>tmp_feat := [7, 3], tmp_funknown := [True, True]\<rparr>"
  have all: "\<forall>b \<in> set (tmp_funknown ex_trainer). b" by (simp add: ex_trainer_def)
  have n0: "node_at ex_pred_tree 0 = Inr ((new_node (-1))\<lparr>cleft := 1, cright := 2,
      node_split_index := 1, split_cond := 2.5, node_default_left := True\<rparr>)"
    and n2: "node_at ex_pred_tree 2 = Inr ((new_node 0)\<lparr>leaf_value := 20\<rparr>)"
    by (simp_all add: node_at_def ex_pred_tree_def)
  have w2: "leaf_walk ex_pred_tree [7, 3] [True, False] 2 = Some (Inr 2)"
    by (subst leaf_walk.simps) (simp add: n2 is_leaf_def new_node_def)
  have w0: "leaf_walk ex_pred_tree [7, 3] [True, False] 0 = Some (Inr 2)"
    by (subst leaf_walk.simps)
       (simp add: n0 is_leaf_def new_node_def get_def get_next_def w2)
  have i: "init_tmpfeat ex_trainer = Inr ex_trainer"
    by (simp add: init_tmpfeat_def ex_trainer_def ex_pred_tree_def)
  have k: "set_known [(1, 3)] ex_trainer
             = Inr (ex_trainer\<lparr>tmp_funknown := [True, False], tmp_feat := [7, 3]\<rparr>)"
    by (simp add: ex_trainer_def put_def)
  have b: "set_back [(1, 3)] (ex_trainer\<lparr>tmp_funknown := [True, False], tmp_feat := [7, 3]\<rparr>)
             = Inr ?T"
    by (simp add: ex_trainer_def put_def)
  have ev: "Predict_sparse ex_trainer [(1, 3)] 0 = Some (Inr (20, ?T))"
    unfolding Predict_sparse_def i k
    by (simp add: GetLeafIndex_def ex_trainer_def w0 n2 put_def new_node_def)
  show ?thesis
    using Predict_sparse_frame [OF all ev] ev by (simp add: ex_trainer_def)
qed

end
